theory Spec2Isabelle
  imports Complex_Main "HOL-Library.Word" "HOL-Library.Multiset"
begin

unbundle bit_operations_syntax

section \<open>The chained hash table of hashtable.c\<close>

text \<open>
  The model follows \<^verbatim>\<open>src/hashtable.c\<close> function by function.

  \<^item> \<^verbatim>\<open>size_t\<close> is a word of any width \<open>'w\<close> (the file builds for 32 and for 64 bits,
    selected by \<^verbatim>\<open>ARCH_64\<close>); \<open>+\<close> and \<open>-\<close> wrap.
  \<^item> A C pointer that may be \<^verbatim>\<open>NULL\<close> is a value of \<open>'a ptr\<close>.
  \<^item> A chain of \<^verbatim>\<open>TableEntry\<close> nodes linked by \<^verbatim>\<open>next\<close> is a list of entries; a
    \<^verbatim>\<open>TableEntry *\<close> is the chain that starts at the node, and \<open>[]\<close> is \<^verbatim>\<open>NULL\<close>.
    The table owns its chains exclusively, so no aliasing is lost.
  \<^item> Undefined behaviour of the C program (a \<^verbatim>\<open>NULL\<close> dereference, a read outside an
    array) is the result \<open>None\<close>; every function that can run into it returns an option.
  \<^item> The allocator is outside the program. Whether an allocation succeeds is an
    argument of the function that allocates; \<^verbatim>\<open>mem_free\<close> has no effect that the
    model observes.
  \<^item> \<^verbatim>\<open>load_factor\<close> is a \<^verbatim>\<open>float\<close> in C and a rational here; the product
    \<^verbatim>\<open>capacity * load_factor\<close> is converted to \<^verbatim>\<open>size_t\<close>, which truncates toward
    zero. For a capacity that is a power of two and a load factor that a \<^verbatim>\<open>float\<close>
    holds the float product is exact, so the two agree; for another capacity the
    float product is rounded and the rational one is not. A product of \<open>- 1\<close> or less,
    or one too large for \<^verbatim>\<open>size_t\<close>, has no defined conversion in C; the model
    wraps it. Every table that a theorem below evaluates has the load factor \<open>3 / 4\<close>
    and a capacity that is a power of two.
  \<^item> The loop counters are \<^verbatim>\<open>int i\<close> in C, taken to be of 32 bits, and the loops
    compare them with a \<^verbatim>\<open>size_t\<close>. A loop that runs over all the buckets of a table
    whose capacity is above \<open>INT_MAX\<close> increments the counter beyond \<open>INT_MAX\<close>, which
    is undefined, so the result is \<open>None\<close>; up to \<open>INT_MAX\<close> the counter ranges over
    \<open>[0..<capacity]\<close>.
\<close>

subsection \<open>Pointers, entries, tables\<close>

datatype 'a ptr = NULL | Ptr 'a

text \<open>The largest value of an \<^verbatim>\<open>int\<close> of 32 bits, the type of the loop counters.\<close>

definition INT_MAX :: nat where
  "INT_MAX = 2147483647"

definition deref :: "'a ptr \<Rightarrow> 'a option" where
  "deref p = (case p of NULL \<Rightarrow> None | Ptr x \<Rightarrow> Some x)"

definition array_read :: "'a list \<Rightarrow> nat \<Rightarrow> 'a option" where
  "array_read xs i = (if i < length xs then Some (xs ! i) else None)"

text \<open>
  Modelled from the spec: the structures \<^verbatim>\<open>TableEntry\<close>, \<^verbatim>\<open>HashTableConf\<close> and
  \<^verbatim>\<open>HashTableIter\<close> are declared in a header that is not part of the source at hand.
  Their fields here are the ones that the code of \<^verbatim>\<open>hashtable.c\<close> reads and writes
  (the spec's entry: key, value, cached hash, next). The field \<^verbatim>\<open>value\<close> is \<open>val\<close>, the
  field \<^verbatim>\<open>next\<close> is the tail of the list, the field \<^verbatim>\<open>size\<close> of the table is \<open>size_ht\<close>,
  its field \<^verbatim>\<open>hash\<close> is \<open>hash_fn\<close>, and the fields of the configuration carry the prefix
  \<open>conf_\<close>; the three allocator fields are left out (see above).
\<close>

record (overloaded) ('k, 'v, 'w) TableEntry =
  key :: "'k ptr"
  val :: "'v ptr"
  hash :: "'w word"

type_synonym ('k, 'v, 'w) chain = "('k, 'v, 'w) TableEntry list"

type_synonym ('k, 'w) hash_t = "'k ptr \<Rightarrow> int \<Rightarrow> 32 word \<Rightarrow> 'w word option"

type_synonym 'k cmp_t = "'k ptr \<Rightarrow> 'k ptr \<Rightarrow> bool option"

record (overloaded) ('k, 'v, 'w) HashTable =
  capacity :: "'w word"
  size_ht :: "'w word"
  threshold :: "'w word"
  hash_seed :: "32 word"
  key_len :: int
  load_factor :: rat
  buckets :: "('k, 'v, 'w) chain list ptr"
  hash_fn :: "('k, 'w) hash_t"
  key_cmp :: "'k cmp_t"

record (overloaded) ('k, 'w) HashTableConf =
  conf_hash :: "('k, 'w) hash_t"
  conf_key_compare :: "'k cmp_t"
  conf_initial_capacity :: "'w word"
  conf_load_factor :: rat
  conf_key_length :: int
  conf_hash_seed :: "32 word"

text \<open>\<^verbatim>\<open>(size_t) (capacity * load_factor)\<close>: the conversion drops the fraction.\<close>

definition threshold_of :: "'w::len word \<Rightarrow> rat \<Rightarrow> 'w word" where
  "threshold_of c lf =
     of_int (if 0 \<le> of_nat (unat c) * lf
             then \<lfloor>of_nat (unat c) * lf\<rfloor>
             else \<lceil>of_nat (unat c) * lf\<rceil>)"

subsection \<open>Creation\<close>

text \<open>
  \<^verbatim>\<open>MAX_POW_TWO\<close> is a macro of a header that is not part of the source at hand; it is
  the parameter \<open>M\<close> of every function that uses it.
\<close>

definition round_pow_two :: "'w::len word \<Rightarrow> 'w word \<Rightarrow> 'w word" where
  "round_pow_two M n =
     (if n \<ge> M then M
      else if n = 0 then 2
      else
        let n = n - 1;
            n = n OR drop_bit 1 n;
            n = n OR drop_bit 2 n;
            n = n OR drop_bit 4 n;
            n = n OR drop_bit 8 n;
            n = n OR drop_bit 16 n
        in n + 1)"

text \<open>
  \<open>table_ok\<close> and \<open>buckets_ok\<close> say whether the first and the second call of
  \<^verbatim>\<open>conf->mem_calloc\<close> return memory. The result of the second call is stored
  without a test.
\<close>

definition hashtable_new_conf ::
  "'w::len word \<Rightarrow> ('k, 'w) HashTableConf \<Rightarrow> bool \<Rightarrow> bool \<Rightarrow> ('k, 'v, 'w) HashTable ptr" where
  "hashtable_new_conf M conf table_ok buckets_ok =
     (if \<not> table_ok then NULL
      else
        let cap = round_pow_two M (conf_initial_capacity conf)
        in Ptr \<lparr> capacity = cap,
                 size_ht = 0,
                 threshold = threshold_of cap (conf_load_factor conf),
                 hash_seed = conf_hash_seed conf,
                 key_len = conf_key_length conf,
                 load_factor = conf_load_factor conf,
                 buckets = (if buckets_ok then Ptr (replicate (unat cap) []) else NULL),
                 hash_fn = conf_hash conf,
                 key_cmp = conf_key_compare conf \<rparr>)"

subsection \<open>Growing\<close>

text \<open>
  The inner and the outer loop of \<^verbatim>\<open>move_entries\<close>. The outer loop reads the buckets
  \<open>0, \<dots>, src_size - 1\<close> of the source, which must exist, and its \<^verbatim>\<open>int\<close> counter
  reaches \<open>src_size\<close>, which must be at most \<open>INT_MAX\<close>.
\<close>

fun move_chain ::
  "'w::len word \<Rightarrow> ('k, 'v, 'w) chain \<Rightarrow> ('k, 'v, 'w) chain list \<Rightarrow> ('k, 'v, 'w) chain list option" where
  "move_chain dest_size [] dest = Some dest"
| "move_chain dest_size (entry # next) dest =
     (let index = unat (hash entry AND (dest_size - 1))
      in if index < length dest
         then move_chain dest_size next (dest[index := entry # dest ! index])
         else None)"

fun move_buckets ::
  "'w::len word \<Rightarrow> ('k, 'v, 'w) chain list \<Rightarrow> ('k, 'v, 'w) chain list \<Rightarrow> ('k, 'v, 'w) chain list option" where
  "move_buckets dest_size [] dest = Some dest"
| "move_buckets dest_size (entry # src) dest =
     (case move_chain dest_size entry dest of
        None \<Rightarrow> None
      | Some dest' \<Rightarrow> move_buckets dest_size src dest')"

definition move_entries ::
  "('k, 'v, 'w) chain list \<Rightarrow> ('k, 'v, 'w) chain list \<Rightarrow> 'w::len word \<Rightarrow> 'w word
     \<Rightarrow> ('k, 'v, 'w) chain list option" where
  "move_entries src_bucket dest_bucket src_size dest_size =
     (if unat src_size \<le> length src_bucket \<and> unat src_size \<le> INT_MAX
      then move_buckets dest_size (take (unat src_size) src_bucket) dest_bucket
      else None)"

text \<open>
  \<open>calloc_ok\<close> says whether \<^verbatim>\<open>t->mem_calloc\<close> returns memory; it is consulted only
  when the call is made.
\<close>

definition resize ::
  "'w::len word \<Rightarrow> ('k, 'v, 'w) HashTable \<Rightarrow> 'w word \<Rightarrow> bool
     \<Rightarrow> (bool \<times> ('k, 'v, 'w) HashTable) option" where
  "resize M t new_capacity calloc_ok =
     (if capacity t = M then Some (False, t)
      else if \<not> calloc_ok then Some (False, t)
      else
        case (if capacity t = 0 then Some [] else deref (buckets t)) of
          None \<Rightarrow> None
        | Some old_buckets \<Rightarrow>
            (case move_entries old_buckets (replicate (unat new_capacity) []) (capacity t) new_capacity of
               None \<Rightarrow> None
             | Some new_buckets \<Rightarrow>
                 Some (True, t\<lparr> buckets := Ptr new_buckets,
                                capacity := new_capacity,
                                threshold := threshold_of new_capacity (load_factor t) \<rparr>)))"

subsection \<open>Insertion\<close>

text \<open>
  The scan of \<^verbatim>\<open>add_null_key\<close>: \<open>Some chain'\<close> when an entry with the \<^verbatim>\<open>NULL\<close> key was
  found and its value replaced, \<open>None\<close> when the end of the chain was reached.
\<close>

fun null_key_replace :: "'v ptr \<Rightarrow> ('k, 'v, 'w::len) chain \<Rightarrow> ('k, 'v, 'w) chain option" where
  "null_key_replace v [] = None"
| "null_key_replace v (replace # next) =
     (if key replace = NULL then Some (replace\<lparr>val := v\<rparr> # next)
      else map_option ((#) replace) (null_key_replace v next))"

definition add_null_key ::
  "('k, 'v, 'w::len) HashTable \<Rightarrow> 'v ptr \<Rightarrow> bool \<Rightarrow> (bool \<times> ('k, 'v, 'w) HashTable) option" where
  "add_null_key table v malloc_ok =
     (case deref (buckets table) of
        None \<Rightarrow> None
      | Some bs \<Rightarrow>
          (case array_read bs 0 of
             None \<Rightarrow> None
           | Some chain \<Rightarrow>
               (case null_key_replace v chain of
                  Some chain' \<Rightarrow> Some (True, table\<lparr>buckets := Ptr (bs[0 := chain'])\<rparr>)
                | None \<Rightarrow>
                    if \<not> malloc_ok then Some (False, table)
                    else Some (True, table\<lparr> buckets := Ptr (bs[0 := \<lparr>key = NULL, val = v, hash = 0\<rparr> # chain]),
                                            size_ht := size_ht table + 1 \<rparr>))))"

text \<open>
  The scan of \<^verbatim>\<open>hashtable_add\<close>, which calls \<^verbatim>\<open>key_cmp(replace->key, key)\<close> on every
  entry it passes. The outer option is the undefined behaviour of the comparator.
\<close>

fun key_replace ::
  "'k cmp_t \<Rightarrow> 'k ptr \<Rightarrow> 'v ptr \<Rightarrow> ('k, 'v, 'w) chain \<Rightarrow> ('k, 'v, 'w) chain option option" where
  "key_replace cmp k v [] = Some None"
| "key_replace cmp k v (replace # next) =
     (case cmp (key replace) k of
        None \<Rightarrow> None
      | Some True \<Rightarrow> Some (Some (replace\<lparr>val := v\<rparr> # next))
      | Some False \<Rightarrow> map_option (map_option ((#) replace)) (key_replace cmp k v next))"

text \<open>
  \<^verbatim>\<open>hashtable_add\<close> in two parts: \<open>add_entry\<close> is the body from \<^verbatim>\<open>if (!key)\<close> on,
  run on the table that the resize at the head of the function leaves. The result of
  \<^verbatim>\<open>resize\<close> is not looked at.
\<close>

definition add_entry ::
  "('k, 'v, 'w::len) HashTable \<Rightarrow> 'k ptr \<Rightarrow> 'v ptr \<Rightarrow> bool
     \<Rightarrow> (bool \<times> ('k, 'v, 'w) HashTable) option" where
  "add_entry table k v malloc_ok =
     (if k = NULL then add_null_key table v malloc_ok
      else
        (case hash_fn table k (key_len table) (hash_seed table) of
           None \<Rightarrow> None
         | Some h \<Rightarrow>
             let i = unat (h AND (capacity table - 1))
             in (case deref (buckets table) of
                   None \<Rightarrow> None
                 | Some bs \<Rightarrow>
                     (case array_read bs i of
                        None \<Rightarrow> None
                      | Some chain \<Rightarrow>
                          (case key_replace (key_cmp table) k v chain of
                             None \<Rightarrow> None
                           | Some (Some chain') \<Rightarrow>
                               Some (True, table\<lparr>buckets := Ptr (bs[i := chain'])\<rparr>)
                           | Some None \<Rightarrow>
                               if \<not> malloc_ok then Some (False, table)
                               else Some (True,
                                 table\<lparr> buckets := Ptr (bs[i := \<lparr>key = k, val = v, hash = h\<rparr> # chain]),
                                         size_ht := size_ht table + 1 \<rparr>))))))"

definition hashtable_add ::
  "'w::len word \<Rightarrow> ('k, 'v, 'w) HashTable \<Rightarrow> 'k ptr \<Rightarrow> 'v ptr \<Rightarrow> bool \<Rightarrow> bool
     \<Rightarrow> (bool \<times> ('k, 'v, 'w) HashTable) option" where
  "hashtable_add M table k v calloc_ok malloc_ok =
     (case (if size_ht table \<ge> threshold table
            then map_option snd (resize M table (push_bit 1 (capacity table)) calloc_ok)
            else Some table) of
        None \<Rightarrow> None
      | Some table' \<Rightarrow> add_entry table' k v malloc_ok)"

subsection \<open>Lookup\<close>

definition get_table_index :: "('k, 'v, 'w::len) HashTable \<Rightarrow> 'k ptr \<Rightarrow> 'w word option" where
  "get_table_index table k =
     (case hash_fn table k (key_len table) (hash_seed table) of
        None \<Rightarrow> None
      | Some h \<Rightarrow> Some (h AND (capacity table - 1)))"

fun null_key_scan :: "('k, 'v, 'w) chain \<Rightarrow> 'v ptr" where
  "null_key_scan [] = NULL"
| "null_key_scan (bucket # next) =
     (if key bucket = NULL then val bucket else null_key_scan next)"

definition get_null_key :: "('k, 'v, 'w) HashTable \<Rightarrow> 'v ptr option" where
  "get_null_key table =
     (case deref (buckets table) of
        None \<Rightarrow> None
      | Some bs \<Rightarrow> map_option null_key_scan (array_read bs 0))"

fun key_scan :: "'k cmp_t \<Rightarrow> 'k ptr \<Rightarrow> ('k, 'v, 'w) chain \<Rightarrow> 'v ptr option" where
  "key_scan cmp k [] = Some NULL"
| "key_scan cmp k (bucket # next) =
     (case cmp (key bucket) k of
        None \<Rightarrow> None
      | Some True \<Rightarrow> Some (val bucket)
      | Some False \<Rightarrow> key_scan cmp k next)"

definition hashtable_get :: "('k, 'v, 'w::len) HashTable \<Rightarrow> 'k ptr \<Rightarrow> 'v ptr option" where
  "hashtable_get table k =
     (if k = NULL then get_null_key table
      else
        case get_table_index table k of
          None \<Rightarrow> None
        | Some index \<Rightarrow>
            (case deref (buckets table) of
               None \<Rightarrow> None
             | Some bs \<Rightarrow>
                 (case array_read bs (unat index) of
                    None \<Rightarrow> None
                  | Some bucket \<Rightarrow> key_scan (key_cmp table) k bucket)))"

text \<open>\<^verbatim>\<open>hashtable_contains_key\<close> has no branch for the \<^verbatim>\<open>NULL\<close> key.\<close>

fun contains_scan :: "'k cmp_t \<Rightarrow> 'k ptr \<Rightarrow> ('k, 'v, 'w) chain \<Rightarrow> bool option" where
  "contains_scan cmp k [] = Some False"
| "contains_scan cmp k (entry # next) =
     (case cmp k (key entry) of
        None \<Rightarrow> None
      | Some True \<Rightarrow> Some True
      | Some False \<Rightarrow> contains_scan cmp k next)"

definition hashtable_contains_key :: "('k, 'v, 'w::len) HashTable \<Rightarrow> 'k ptr \<Rightarrow> bool option" where
  "hashtable_contains_key table k =
     (case get_table_index table k of
        None \<Rightarrow> None
      | Some index \<Rightarrow>
          (case deref (buckets table) of
             None \<Rightarrow> None
           | Some bs \<Rightarrow>
               (case array_read bs (unat index) of
                  None \<Rightarrow> None
                | Some entry \<Rightarrow> contains_scan (key_cmp table) k entry)))"

definition hashtable_size :: "('k, 'v, 'w) HashTable \<Rightarrow> 'w word" where
  "hashtable_size table = size_ht table"

definition hashtable_capacity :: "('k, 'v, 'w) HashTable \<Rightarrow> 'w word" where
  "hashtable_capacity table = capacity table"

subsection \<open>Removal\<close>

text \<open>
  The scans of \<^verbatim>\<open>hashtable_remove\<close> and \<^verbatim>\<open>remove_null_key\<close>: the value of the
  unlinked entry and the chain without it, or \<open>None\<close> at the end of the chain.
  \<^verbatim>\<open>hashtable_remove\<close> calls \<^verbatim>\<open>key_cmp(key, e->key)\<close>.
\<close>

fun key_unlink ::
  "'k cmp_t \<Rightarrow> 'k ptr \<Rightarrow> ('k, 'v, 'w) chain \<Rightarrow> ('v ptr \<times> ('k, 'v, 'w) chain) option option" where
  "key_unlink cmp k [] = Some None"
| "key_unlink cmp k (e # next) =
     (case cmp k (key e) of
        None \<Rightarrow> None
      | Some True \<Rightarrow> Some (Some (val e, next))
      | Some False \<Rightarrow> map_option (map_option (\<lambda>(v, c). (v, e # c))) (key_unlink cmp k next))"

fun null_key_unlink :: "('k, 'v, 'w) chain \<Rightarrow> ('v ptr \<times> ('k, 'v, 'w) chain) option" where
  "null_key_unlink [] = None"
| "null_key_unlink (e # next) =
     (if key e = NULL then Some (val e, next)
      else map_option (\<lambda>(v, c). (v, e # c)) (null_key_unlink next))"

definition remove_null_key ::
  "('k, 'v, 'w::len) HashTable \<Rightarrow> ('v ptr \<times> ('k, 'v, 'w) HashTable) option" where
  "remove_null_key table =
     (case deref (buckets table) of
        None \<Rightarrow> None
      | Some bs \<Rightarrow>
          (case array_read bs 0 of
             None \<Rightarrow> None
           | Some chain \<Rightarrow>
               (case null_key_unlink chain of
                  None \<Rightarrow> Some (NULL, table)
                | Some (v, chain') \<Rightarrow>
                    Some (v, table\<lparr> buckets := Ptr (bs[0 := chain']),
                                     size_ht := size_ht table - 1 \<rparr>))))"

definition hashtable_remove ::
  "('k, 'v, 'w::len) HashTable \<Rightarrow> 'k ptr \<Rightarrow> ('v ptr \<times> ('k, 'v, 'w) HashTable) option" where
  "hashtable_remove table k =
     (if k = NULL then remove_null_key table
      else
        case get_table_index table k of
          None \<Rightarrow> None
        | Some i \<Rightarrow>
            (case deref (buckets table) of
               None \<Rightarrow> None
             | Some bs \<Rightarrow>
                 (case array_read bs (unat i) of
                    None \<Rightarrow> None
                  | Some chain \<Rightarrow>
                      (case key_unlink (key_cmp table) k chain of
                         None \<Rightarrow> None
                       | Some None \<Rightarrow> Some (NULL, table)
                       | Some (Some (v, chain')) \<Rightarrow>
                           Some (v, table\<lparr> buckets := Ptr (bs[unat i := chain']),
                                            size_ht := size_ht table - 1 \<rparr>)))))"

text \<open>
  \<^verbatim>\<open>hashtable_remove_all\<close>: the inner loop frees a chain and decrements
  \<^verbatim>\<open>table->size\<close> once for every node; the outer loop visits the buckets
  \<open>0, \<dots>, capacity - 1\<close> and stores \<^verbatim>\<open>NULL\<close> in each. Its \<^verbatim>\<open>int\<close> counter reaches
  the capacity, which must be at most \<open>INT_MAX\<close>.
\<close>

fun free_chain :: "'w::len word \<Rightarrow> ('k, 'v, 'w) chain \<Rightarrow> 'w word" where
  "free_chain sz [] = sz"
| "free_chain sz (entry # next) = free_chain (sz - 1) next"

fun remove_all_loop ::
  "nat list \<Rightarrow> 'w::len word \<Rightarrow> ('k, 'v, 'w) chain list \<Rightarrow> 'w word \<times> ('k, 'v, 'w) chain list" where
  "remove_all_loop [] sz bs = (sz, bs)"
| "remove_all_loop (i # is) sz bs = remove_all_loop is (free_chain sz (bs ! i)) (bs[i := []])"

definition hashtable_remove_all :: "('k, 'v, 'w::len) HashTable \<Rightarrow> ('k, 'v, 'w) HashTable option" where
  "hashtable_remove_all table =
     (if capacity table = 0 then Some table
      else
        case deref (buckets table) of
          None \<Rightarrow> None
        | Some bs \<Rightarrow>
            if unat (capacity table) \<le> length bs \<and> unat (capacity table) \<le> INT_MAX
            then (let (sz, bs') = remove_all_loop [0..<unat (capacity table)] (size_ht table) bs
                  in Some (table\<lparr>size_ht := sz, buckets := Ptr bs'\<rparr>))
            else None)"

subsection \<open>The iterator\<close>

text \<open>
  \<^verbatim>\<open>HashTableIter\<close> is declared in the header; its fields are the ones the code
  assigns. \<^verbatim>\<open>hashtable_iter_init\<close> writes into a structure the caller provides, so it
  takes the previous contents of that structure (whatever they are) and returns the
  new ones. Its loop leaves at the first chain that is not empty; when the capacity
  is above \<open>INT_MAX\<close> and none of the buckets \<open>0, \<dots>, INT_MAX\<close> has one, the \<^verbatim>\<open>int\<close>
  counter is incremented beyond \<open>INT_MAX\<close>.
\<close>

record (overloaded) ('k, 'v, 'w) HashTableIter =
  table :: "('k, 'v, 'w) HashTable ptr"
  bucket_index :: "'w word"
  next_entry :: "('k, 'v, 'w) chain"
  prev_entry :: "('k, 'v, 'w) chain"

fun iter_init_loop ::
  "nat \<Rightarrow> ('k, 'v, 'w) chain list \<Rightarrow> ('k, 'v, 'w::len) HashTableIter \<Rightarrow> ('k, 'v, 'w) HashTableIter" where
  "iter_init_loop i [] iter = iter"
| "iter_init_loop i (e # bs) iter =
     (if e \<noteq> []
      then iter\<lparr>bucket_index := of_nat i, next_entry := e, prev_entry := []\<rparr>
      else iter_init_loop (Suc i) bs iter)"

definition hashtable_iter_init ::
  "('k, 'v, 'w::len) HashTableIter \<Rightarrow> ('k, 'v, 'w) HashTable \<Rightarrow> ('k, 'v, 'w) HashTableIter option" where
  "hashtable_iter_init iter t =
     (if capacity t = 0 then Some (iter\<lparr>table := Ptr t\<rparr>)
      else
        case deref (buckets t) of
          None \<Rightarrow> None
        | Some bs \<Rightarrow>
            if unat (capacity t) \<le> length bs \<and>
               (unat (capacity t) \<le> INT_MAX \<or> list_ex (\<lambda>e. e \<noteq> []) (take (Suc INT_MAX) bs))
            then Some (iter_init_loop 0 (take (unat (capacity t)) bs) (iter\<lparr>table := Ptr t\<rparr>))
            else None)"

definition hashtable_iter_has_next :: "('k, 'v, 'w) HashTableIter \<Rightarrow> bool" where
  "hashtable_iter_has_next iter = (if next_entry iter \<noteq> [] then True else False)"

subsection \<open>The string strategies and the default configuration\<close>

text \<open>
  A string key is the list of its characters; the memory it points to holds these
  characters and the terminating zero. \<^verbatim>\<open>char\<close> is signed, as on the common ABIs, so
  a character is sign-extended when it meets a \<^verbatim>\<open>size_t\<close>; characters below 128 are
  not affected.
\<close>

definition char_to_size_t :: "char \<Rightarrow> 'w::len word" where
  "char_to_size_t c = scast (of_char c :: 8 word)"

text \<open>
  The loop \<^verbatim>\<open>while (*str++) hash = ((hash << 5) + hash) ^ *str;\<close> over the memory
  from \<^verbatim>\<open>str\<close> on: the test reads the character at \<^verbatim>\<open>str\<close> and advances, the body reads
  the character after it. Reading past the memory given is undefined.
\<close>

fun hash_string_loop :: "'w::len word \<Rightarrow> char list \<Rightarrow> 'w word option" where
  "hash_string_loop h [] = None"
| "hash_string_loop h (c # str) =
     (if of_char c = (0 :: nat) then Some h
      else case str of
             [] \<Rightarrow> None
           | d # _ \<Rightarrow> hash_string_loop ((push_bit 5 h + h) XOR char_to_size_t d) str)"

definition hashtable_hash_string :: "(string, 'w::len) hash_t" where
  "hashtable_hash_string k len seed =
     (case k of
        NULL \<Rightarrow> None
      | Ptr s \<Rightarrow> hash_string_loop 5381 (s @ [CHR 0x00]))"

text \<open>\<^verbatim>\<open>strcmp\<close> compares up to the first zero; a \<^verbatim>\<open>NULL\<close> argument is undefined.\<close>

definition c_str :: "string \<Rightarrow> string" where
  "c_str s = takeWhile (\<lambda>c. of_char c \<noteq> (0 :: nat)) s"

definition hashtable_string_key_cmp :: "string cmp_t" where
  "hashtable_string_key_cmp key1 key2 =
     (case (key1, key2) of
        (Ptr a, Ptr b) \<Rightarrow> Some (c_str a = c_str b)
      | _ \<Rightarrow> None)"

definition hashtable_pointer_key_cmp :: "'k cmp_t" where
  "hashtable_pointer_key_cmp key1 key2 = Some (key1 = key2)"

text \<open>
  Modelled from the spec: the macros \<^verbatim>\<open>STRING_HASH\<close>, \<^verbatim>\<open>CMP_STRING\<close> and
  \<^verbatim>\<open>KEY_LENGTH_VARIABLE\<close> are defined in a header that is not part of the source at
  hand. The table made by \<^verbatim>\<open>hashtable_new\<close> "will work with string keys", and the
  spec names a sentinel for variable-length keys, so they are taken to be the string
  hash and the string comparator of this file and \<open>-1\<close>.
\<close>

definition hashtable_conf_init :: "(string, 'w::len) HashTableConf" where
  "hashtable_conf_init =
     \<lparr> conf_hash = hashtable_hash_string,
       conf_key_compare = hashtable_string_key_cmp,
       conf_initial_capacity = 16,
       conf_load_factor = 3 / 4,
       conf_key_length = - 1,
       conf_hash_seed = 0 \<rparr>"

definition hashtable_new :: "'w::len word \<Rightarrow> bool \<Rightarrow> bool \<Rightarrow> (string, 'v, 'w) HashTable ptr" where
  "hashtable_new M table_ok buckets_ok = hashtable_new_conf M hashtable_conf_init table_ok buckets_ok"

subsection \<open>The string hash as the specification words it\<close>

text \<open>
  The specification's reading of the string digest, for comparison with
  \<open>hashtable_hash_string\<close>: starting from 5381, every character of the key, in
  order, is folded in by \<open>hash = hash * 33 XOR byte\<close>.
\<close>

definition spec_string_hash :: "string \<Rightarrow> 'w::len word" where
  "spec_string_hash s = foldl (\<lambda>h c. (h * 33) XOR of_char c) 5381 s"

subsection \<open>Tables and the states the operations reach\<close>

definition table_entries :: "('k, 'v, 'w) HashTable \<Rightarrow> ('k, 'v, 'w) chain" where
  "table_entries t = (case buckets t of NULL \<Rightarrow> [] | Ptr bs \<Rightarrow> concat bs)"

text \<open>
  The tables that a program can hold: made by \<^verbatim>\<open>hashtable_new_conf\<close>, then changed
  by \<^verbatim>\<open>hashtable_add\<close> (with the resize it may start), \<^verbatim>\<open>hashtable_remove\<close> and
  \<^verbatim>\<open>hashtable_remove_all\<close>, with any outcome of the allocations on the way.
\<close>

inductive reachable ::
  "'w::len word \<Rightarrow> ('k, 'w) HashTableConf \<Rightarrow> ('k, 'v, 'w) HashTable \<Rightarrow> bool"
  for M :: "'w word" and conf :: "('k, 'w) HashTableConf" where
  created:
    "hashtable_new_conf M conf table_ok buckets_ok = Ptr t \<Longrightarrow> reachable M conf t"
| added:
    "reachable M conf t \<Longrightarrow> hashtable_add M t k v calloc_ok malloc_ok = Some (ok, t')
       \<Longrightarrow> reachable M conf t'"
| removed:
    "reachable M conf t \<Longrightarrow> hashtable_remove t k = Some (v, t') \<Longrightarrow> reachable M conf t'"
| removed_all:
    "reachable M conf t \<Longrightarrow> hashtable_remove_all t = Some t' \<Longrightarrow> reachable M conf t'"

text \<open>
  A well-formed table: the bucket array is allocated and has \<open>capacity\<close> chains, and
  \<open>size\<close> counts the entries.
\<close>

definition table_wf :: "('k, 'v, 'w::len) HashTable \<Rightarrow> bool" where
  "table_wf t =
     (case buckets t of
        NULL \<Rightarrow> False
      | Ptr bs \<Rightarrow>
          capacity t \<noteq> 0 \<and> length bs = unat (capacity t) \<and>
          size_ht t = of_nat (length (concat bs)))"

text \<open>
  The invariant behind the \<open>size\<close> field: it is the number of entries in the chains
  (as a \<^verbatim>\<open>size_t\<close>), and an allocated bucket array has \<open>capacity\<close> chains.
\<close>

definition size_counts :: "('k, 'v, 'w::len) HashTable \<Rightarrow> bool" where
  "size_counts t \<longleftrightarrow>
     size_ht t = of_nat (length (table_entries t)) \<and>
     (case buckets t of NULL \<Rightarrow> True | Ptr bs \<Rightarrow> length bs = unat (capacity t))"

text \<open>The five lines \<^verbatim>\<open>n |= n >> k\<close> of \<^verbatim>\<open>round_pow_two\<close> on their own.\<close>

definition smear :: "'w::len word \<Rightarrow> 'w word" where
  "smear n =
     (let n = n OR drop_bit 1 n;
          n = n OR drop_bit 2 n;
          n = n OR drop_bit 4 n;
          n = n OR drop_bit 8 n;
          n = n OR drop_bit 16 n
      in n)"

text \<open>Every entry sits in the chain whose index is its cached hash, masked.\<close>

definition entries_indexed :: "('k, 'v, 'w::len) HashTable \<Rightarrow> bool" where
  "entries_indexed t =
     (case buckets t of
        NULL \<Rightarrow> True
      | Ptr bs \<Rightarrow> \<forall>i<length bs. \<forall>e\<in>set (bs ! i). unat (hash e AND (capacity t - 1)) = i)"

text \<open>
  The cached hash of an entry is the hash of its key; the entry of the \<^verbatim>\<open>NULL\<close> key
  has the cached hash 0.
\<close>

definition cached_hash_ok :: "('k, 'v, 'w::len) HashTable \<Rightarrow> ('k, 'v, 'w) TableEntry \<Rightarrow> bool" where
  "cached_hash_ok t e =
     (case key e of
        NULL \<Rightarrow> hash e = 0
      | Ptr k \<Rightarrow> hash_fn t (key e) (key_len t) (hash_seed t) = Some (hash e))"

text \<open>
  What the table needs of its two strategies on a set \<open>KS\<close> of keys: the hash function
  is defined on the keys other than \<^verbatim>\<open>NULL\<close>, and comparing a key other than \<^verbatim>\<open>NULL\<close>
  with any key of the set, in either order, is defined and decides whether the two
  are the same key.
\<close>

definition keys_ok ::
  "('k, 'w) hash_t \<Rightarrow> 'k cmp_t \<Rightarrow> int \<Rightarrow> 32 word \<Rightarrow> 'k ptr set \<Rightarrow> bool" where
  "keys_ok h cmp len seed KS \<longleftrightarrow>
     (\<forall>a\<in>KS. \<forall>b\<in>KS. b \<noteq> NULL \<longrightarrow> cmp a b = Some (a = b) \<and> cmp b a = Some (b = a)) \<and>
     (\<forall>k\<in>KS. k \<noteq> NULL \<longrightarrow> h k len seed \<noteq> None)"

text \<open>
  The representation invariant of a table whose keys are drawn from \<open>KS\<close>: well-formed,
  entries in the chains of their hashes, cached hashes right, no key twice, and the
  strategies good on \<open>KS\<close>.
\<close>

definition table_inv :: "'k ptr set \<Rightarrow> ('k, 'v, 'w::len) HashTable \<Rightarrow> bool" where
  "table_inv KS t \<longleftrightarrow>
     table_wf t \<and> entries_indexed t \<and>
     distinct (map key (table_entries t)) \<and>
     (\<forall>e\<in>set (table_entries t). key e \<in> KS \<and> cached_hash_ok t e) \<and>
     keys_ok (hash_fn t) (key_cmp t) (key_len t) (hash_seed t) KS"

text \<open>The value that a list of entries gives a key: that of the first entry with the key.\<close>

definition lookup_entries :: "('k, 'v, 'w) chain \<Rightarrow> 'k ptr \<Rightarrow> 'v ptr" where
  "lookup_entries es k = (case find (\<lambda>e. key e = k) es of None \<Rightarrow> NULL | Some e \<Rightarrow> val e)"

text \<open>Inserting a list of mappings, one after the other, with every allocation succeeding.\<close>

fun insert_all ::
  "'w::len word \<Rightarrow> ('k, 'v, 'w) HashTable \<Rightarrow> ('k ptr \<times> 'v ptr) list \<Rightarrow> ('k, 'v, 'w) HashTable option" where
  "insert_all M t [] = Some t"
| "insert_all M t ((k, v) # kvs) =
     (case hashtable_add M t k v True True of
        Some (True, t') \<Rightarrow> insert_all M t' kvs
      | _ \<Rightarrow> None)"

text \<open>The chains of a bucket array of \<open>d\<close> slots hold the entries that hash to them.\<close>

definition chains_indexed :: "'w::len word \<Rightarrow> ('k, 'v, 'w) chain list \<Rightarrow> bool" where
  "chains_indexed d bs \<longleftrightarrow> (\<forall>i<length bs. \<forall>e\<in>set (bs ! i). unat (hash e AND (d - 1)) = i)"

text \<open>The mappings of a table: the key and the value of every entry.\<close>

definition mappings :: "('k, 'v, 'w) HashTable \<Rightarrow> ('k ptr \<times> 'v ptr) set" where
  "mappings t = (\<lambda>e. (key e, val e)) ` set (table_entries t)"

section \<open>Evaluation on concrete tables\<close>

lemmas ht_defs = hashtable_new_def hashtable_new_conf_def hashtable_conf_init_def
  round_pow_two_def threshold_of_def hashtable_add_def add_entry_def add_null_key_def resize_def
  move_entries_def deref_def array_read_def get_table_index_def hashtable_get_def
  get_null_key_def hashtable_contains_key_def hashtable_remove_def remove_null_key_def
  hashtable_remove_all_def hashtable_iter_init_def hashtable_iter_has_next_def
  hashtable_hash_string_def hashtable_string_key_cmp_def char_to_size_t_def c_str_def
  INT_MAX_def

text \<open>
  C7. \<^verbatim>\<open>hashtable_new_conf\<close> tests the first allocation only. When the allocation
  of the table structure fails, the result is \<^verbatim>\<open>NULL\<close>. When the table structure is
  allocated and the allocation of the bucket array fails, the result is not \<^verbatim>\<open>NULL\<close>:
  it is a table whose \<^verbatim>\<open>buckets\<close> field is \<^verbatim>\<open>NULL\<close>.
\<close>

theorem new_conf_returns_table_without_buckets:
  "hashtable_new_conf M conf False buckets_ok = NULL \<and>
   map_ptr buckets (hashtable_new_conf M conf True False) = Ptr NULL"
  by (simp add: hashtable_new_conf_def Let_def)

text \<open>
  C4. For the key \<^verbatim>\<open>"a"\<close> the string hash is not the fold over the key's bytes: the
  loop tests one character and mixes in the next, so the first character is skipped
  and the terminating zero is mixed in. The code yields \<open>5381 * 33 XOR 0 = 177573\<close>,
  the fold \<open>5381 * 33 XOR 97 = 177604\<close>.
\<close>

theorem hash_string_skips_first_char:
  "hashtable_hash_string (Ptr ''a'') len seed = Some (177573 :: 32 word) \<and>
   spec_string_hash ''a'' = (177604 :: 32 word)"
  by (simp add: hashtable_hash_string_def char_to_size_t_def spec_string_hash_def)

text \<open>
  C3. In the table made by \<^verbatim>\<open>hashtable_new\<close>, after \<^verbatim>\<open>hashtable_add(table, NULL, x)\<close>
  the lookup of the \<^verbatim>\<open>NULL\<close> key returns \<open>x\<close>, but \<^verbatim>\<open>hashtable_contains_key(table, NULL)\<close>
  hands the \<^verbatim>\<open>NULL\<close> key to the hash function, which dereferences it: the call has
  no defined result. The rest of the scenario is as the claim says: the removal of
  the \<^verbatim>\<open>NULL\<close> key returns \<open>x\<close>, and the lookup after it returns \<^verbatim>\<open>NULL\<close>.
\<close>

theorem contains_key_hashes_null_key:
  "(case hashtable_new (2 ^ 31 :: 32 word) True True of
      NULL \<Rightarrow> False
    | Ptr t0 \<Rightarrow>
        (case hashtable_add (2 ^ 31) t0 NULL (Ptr x) calloc_ok True of
           Some (True, t1) \<Rightarrow>
             hashtable_get t1 NULL = Some (Ptr x) \<and>
             hashtable_contains_key t1 NULL = None \<and>
             (case hashtable_remove t1 NULL of
                None \<Rightarrow> False
              | Some (v, t2) \<Rightarrow> v = Ptr x \<and> hashtable_get t2 NULL = Some NULL)
         | _ \<Rightarrow> False))"
  by (simp add: ht_defs Let_def)

lemma iter_init_loop_all_empty:
  "\<forall>c \<in> set bs. c = [] \<Longrightarrow> iter_init_loop i bs iter = iter"
  by (induction bs arbitrary: i) auto

lemma iter_init_empty_unchanged:
  assumes "hashtable_iter_init iter t = Some iter'" and "table_entries t = []"
  shows "next_entry iter' = next_entry iter"
proof (cases "capacity t = 0")
  case True
  with assms show ?thesis by (auto simp: hashtable_iter_init_def)
next
  case False
  with assms obtain bs where bs: "buckets t = Ptr bs" "unat (capacity t) \<le> length bs"
    and iter': "iter' = iter_init_loop 0 (take (unat (capacity t)) bs) (iter\<lparr>table := Ptr t\<rparr>)"
    by (cases "buckets t") (auto simp: hashtable_iter_init_def deref_def split: if_splits)
  from assms(2) bs(1) have "\<forall>c \<in> set bs. c = []"
    by (simp add: table_entries_def)
  then have "\<forall>c \<in> set (take (unat (capacity t)) bs). c = []"
    by (meson in_set_takeD)
  then show ?thesis
    by (simp add: iter' iter_init_loop_all_empty)
qed

text \<open>
  C6. \<^verbatim>\<open>hashtable_iter_init\<close> on the empty table made by \<^verbatim>\<open>hashtable_new\<close> assigns
  \<^verbatim>\<open>iter->table\<close> only. An iterator structure whose \<^verbatim>\<open>next_entry\<close> held a pointer
  before the call still holds it afterwards, and \<^verbatim>\<open>hashtable_iter_has_next\<close> returns
  true.
\<close>

theorem iter_init_empty_table_keeps_next_entry:
  "(case hashtable_new (2 ^ 31 :: 32 word) True True of
      NULL \<Rightarrow> False
    | Ptr t0 \<Rightarrow>
        size_ht t0 = 0 \<and>
        map_option hashtable_iter_has_next
          (hashtable_iter_init
             \<lparr>table = NULL, bucket_index = 0, next_entry = [stale], prev_entry = []\<rparr> t0)
        = Some True)"
  by (simp add: ht_defs Let_def iter_init_loop_all_empty)

section \<open>The size field and the entries\<close>

subsection \<open>Counting entries\<close>

lemma length_concat_update:
  "i < length bs \<Longrightarrow>
   length (concat (bs[i := c])) + length (bs ! i) = length (concat bs) + length c"
proof (induction bs arbitrary: i)
  case Nil
  then show ?case by simp
next
  case (Cons b bs)
  then show ?case by (cases i) auto
qed

lemma move_chain_length:
  "move_chain d c dest = Some dest' \<Longrightarrow>
   length dest' = length dest \<and> length (concat dest') = length (concat dest) + length c"
proof (induction c arbitrary: dest)
  case Nil
  then show ?case by simp
next
  case (Cons e c)
  let ?i = "unat (hash e AND (d - 1))"
  from Cons.prems have i: "?i < length dest"
    and rest: "move_chain d c (dest[?i := e # dest ! ?i]) = Some dest'"
    by (auto simp: Let_def split: if_splits)
  from Cons.IH [OF rest] length_concat_update [OF i, of "e # dest ! ?i"]
  show ?case by simp
qed

lemma move_buckets_length:
  "move_buckets d src dest = Some dest' \<Longrightarrow>
   length dest' = length dest \<and>
   length (concat dest') = length (concat dest) + length (concat src)"
proof (induction src arbitrary: dest)
  case Nil
  then show ?case by simp
next
  case (Cons c src)
  then obtain dest1 where 1: "move_chain d c dest = Some dest1"
    and 2: "move_buckets d src dest1 = Some dest'"
    by (auto split: option.splits)
  from move_chain_length [OF 1] Cons.IH [OF 2] show ?case by simp
qed

lemma key_replace_length:
  "key_replace cmp k v c = Some (Some c') \<Longrightarrow> length c' = length c"
  by (induction c arbitrary: c') (auto split: option.splits bool.splits)

lemma null_key_replace_length:
  "null_key_replace v c = Some c' \<Longrightarrow> length c' = length c"
  by (induction c arbitrary: c') (auto split: if_splits)

lemma key_unlink_length:
  "key_unlink cmp k c = Some (Some (v, c')) \<Longrightarrow> length c = Suc (length c')"
  by (induction c arbitrary: c') (auto split: option.splits bool.splits)

lemma null_key_unlink_length:
  "null_key_unlink c = Some (v, c') \<Longrightarrow> length c = Suc (length c')"
  by (induction c arbitrary: c') (auto split: if_splits)

lemma free_chain_eq: "free_chain sz c = sz - of_nat (length c)"
  by (induction c arbitrary: sz) auto

lemma remove_all_loop_append:
  "remove_all_loop (is @ js) sz bs =
     (case remove_all_loop is sz bs of (sz', bs') \<Rightarrow> remove_all_loop js sz' bs')"
  by (induction "is" arbitrary: sz bs) auto

lemma remove_all_loop_upt:
  "n \<le> length bs \<Longrightarrow>
   remove_all_loop [0..<n] sz bs =
     (sz - of_nat (length (concat (take n bs))), replicate n [] @ drop n bs)"
proof (induction n)
  case 0
  then show ?case by simp
next
  case (Suc n)
  then have n: "n < length bs" by simp
  have "(replicate n [] @ drop n bs) ! n = bs ! n"
    using n by (simp add: nth_append)
  moreover have "(replicate n [] @ drop n bs)[n := []] = replicate (Suc n) [] @ drop (Suc n) bs"
    using n by (simp add: list_update_append replicate_append_same flip: Cons_nth_drop_Suc)
  ultimately show ?case
    using Suc n by (simp add: remove_all_loop_append free_chain_eq take_Suc_conv_app_nth)
qed


subsection \<open>The size field counts the entries\<close>

lemma size_counts_Ptr:
  "buckets t = Ptr bs \<Longrightarrow>
   size_counts t \<longleftrightarrow> size_ht t = of_nat (length (concat bs)) \<and> length bs = unat (capacity t)"
  by (simp add: size_counts_def table_entries_def)

lemma new_conf_size_counts:
  "hashtable_new_conf M conf table_ok buckets_ok = Ptr t \<Longrightarrow> size_counts t"
  by (auto simp: hashtable_new_conf_def size_counts_def table_entries_def Let_def
      split: if_splits)

lemma resize_size_counts:
  assumes "size_counts t" and "resize M t nc calloc_ok = Some (b, t')"
  shows "size_counts t'"
proof (cases "capacity t = M \<or> \<not> calloc_ok")
  case True
  with assms show ?thesis by (auto simp: resize_def split: if_splits)
next
  case False
  define old where "old = (if capacity t = 0 then [] else case buckets t of NULL \<Rightarrow> [] | Ptr bs \<Rightarrow> bs)"
  from False assms(2) obtain new where
    new: "move_entries old (replicate (unat nc) []) (capacity t) nc = Some new"
    and t': "t' = t\<lparr>buckets := Ptr new, capacity := nc, threshold := threshold_of nc (load_factor t)\<rparr>"
    by (cases "buckets t")
       (auto simp: resize_def old_def deref_def split: option.splits if_splits)
  from new have mv: "move_buckets nc (take (unat (capacity t)) old) (replicate (unat nc) []) = Some new"
    by (simp add: move_entries_def split: if_splits)
  have "length (concat (take (unat (capacity t)) old)) = length (table_entries t)"
    using assms(1)
    by (cases "buckets t") (auto simp: old_def size_counts_def table_entries_def)
  with move_buckets_length [OF mv] assms(1) show ?thesis
    by (simp add: t' size_counts_def table_entries_def)
qed

lemma add_null_key_size_counts:
  assumes "size_counts t" and "add_null_key t v malloc_ok = Some (b, t')"
  shows "size_counts t'"
proof -
  from assms(2) obtain bs where bs: "buckets t = Ptr bs" and len: "0 < length bs"
    by (cases "buckets t") (auto simp: add_null_key_def deref_def array_read_def split: if_splits)
  note upd = length_concat_update [OF len]
  show ?thesis
  proof (cases "null_key_replace v (bs ! 0)")
    case None
    with assms bs len upd [of "\<lparr>key = NULL, val = v, hash = 0\<rparr> # bs ! 0"] show ?thesis
      by (auto simp: add_null_key_def deref_def array_read_def size_counts_Ptr split: if_splits)
  next
    case (Some c')
    with assms bs len upd [of c'] null_key_replace_length [OF Some] show ?thesis
      by (auto simp: add_null_key_def deref_def array_read_def size_counts_Ptr)
  qed
qed

lemma add_entry_size_counts:
  assumes "size_counts t" and "add_entry t k v malloc_ok = Some (b, t')"
  shows "size_counts t'"
proof (cases "k = NULL")
  case True
  with assms(2) have "add_null_key t v malloc_ok = Some (b, t')"
    by (simp add: add_entry_def)
  with assms(1) show ?thesis by (rule add_null_key_size_counts)
next
  case False
  with assms(2) obtain h bs r where
    h: "hash_fn t k (key_len t) (hash_seed t) = Some h"
    and bs: "buckets t = Ptr bs"
    and i: "unat (h AND (capacity t - 1)) < length bs"
    and r: "key_replace (key_cmp t) k v (bs ! unat (h AND (capacity t - 1))) = Some r"
    by (cases "buckets t")
       (auto simp: add_entry_def deref_def array_read_def Let_def split: option.splits if_splits)
  let ?i = "unat (h AND (capacity t - 1))"
  note upd = length_concat_update [OF i]
  show ?thesis
  proof (cases r)
    case None
    with assms False h bs i r upd [of "\<lparr>key = k, val = v, hash = h\<rparr> # bs ! ?i"]
    show ?thesis
      by (auto simp: add_entry_def deref_def array_read_def Let_def size_counts_Ptr
          split: if_splits)
  next
    case (Some c')
    with assms False h bs i r upd [of c'] key_replace_length [of "key_cmp t" k v "bs ! ?i" c']
    show ?thesis
      by (auto simp: add_entry_def deref_def array_read_def Let_def size_counts_Ptr)
  qed
qed

lemma hashtable_add_size_counts:
  assumes "size_counts t" and "hashtable_add M t k v calloc_ok malloc_ok = Some (b, t')"
  shows "size_counts t'"
proof -
  from assms(2) obtain t1 where
    t1: "(if threshold t \<le> size_ht t
          then map_option snd (resize M t (push_bit 1 (capacity t)) calloc_ok)
          else Some t) = Some t1"
    and add: "add_entry t1 k v malloc_ok = Some (b, t')"
    by (auto simp: hashtable_add_def split: option.splits)
  have "size_counts t1"
  proof (cases "threshold t \<le> size_ht t")
    case True
    with t1 obtain b1 where "resize M t (push_bit 1 (capacity t)) calloc_ok = Some (b1, t1)"
      by auto
    with assms(1) show ?thesis by (rule resize_size_counts)
  next
    case False
    with t1 assms(1) show ?thesis by simp
  qed
  then show ?thesis using add by (rule add_entry_size_counts)
qed

lemma word_of_nat_Suc_minus_1: "(of_nat (Suc n) :: 'w::len word) - 1 = of_nat n"
  by simp

lemma remove_null_key_size_counts:
  assumes "size_counts t" and "remove_null_key t = Some (v, t')"
  shows "size_counts t'"
proof -
  from assms(2) obtain bs where bs: "buckets t = Ptr bs" and len: "0 < length bs"
    by (cases "buckets t") (auto simp: remove_null_key_def deref_def array_read_def split: if_splits)
  show ?thesis
  proof (cases "null_key_unlink (bs ! 0)")
    case None
    with assms bs len show ?thesis
      by (auto simp: remove_null_key_def deref_def array_read_def)
  next
    case (Some r)
    obtain v' c' where r: "r = (v', c')" by (cases r)
    from Some r have unl: "null_key_unlink (bs ! 0) = Some (v', c')" by simp
    from length_concat_update [OF len, of c'] null_key_unlink_length [OF unl]
    have "length (concat bs) = Suc (length (concat (bs[0 := c'])))" by simp
    with assms bs len unl show ?thesis
      by (auto simp: remove_null_key_def deref_def array_read_def size_counts_Ptr)
  qed
qed

lemma hashtable_remove_size_counts:
  assumes "size_counts t" and "hashtable_remove t k = Some (v, t')"
  shows "size_counts t'"
proof (cases "k = NULL")
  case True
  with assms show ?thesis
    by (auto simp: hashtable_remove_def intro: remove_null_key_size_counts)
next
  case False
  with assms(2) obtain i bs r where
    bs: "buckets t = Ptr bs" and idx: "get_table_index t k = Some i"
    and i: "unat i < length bs"
    and r: "key_unlink (key_cmp t) k (bs ! unat i) = Some r"
    by (cases "buckets t")
       (auto simp: hashtable_remove_def deref_def array_read_def split: option.splits if_splits)
  show ?thesis
  proof (cases r)
    case None
    with assms False bs idx i r show ?thesis
      by (auto simp: hashtable_remove_def deref_def array_read_def)
  next
    case (Some p)
    obtain v' c' where p: "p = (v', c')" by (cases p)
    from r Some p have unl: "key_unlink (key_cmp t) k (bs ! unat i) = Some (Some (v', c'))"
      by simp
    from length_concat_update [OF i, of c'] key_unlink_length [OF unl]
    have "length (concat bs) = Suc (length (concat (bs[unat i := c'])))" by simp
    with assms False bs idx i unl show ?thesis
      by (auto simp: hashtable_remove_def deref_def array_read_def size_counts_Ptr)
  qed
qed

lemma hashtable_remove_all_result:
  assumes "buckets t = Ptr bs" and "length bs = unat (capacity t)"
    and "unat (capacity t) \<le> INT_MAX"
  shows "hashtable_remove_all t =
           Some (t\<lparr>size_ht := size_ht t - of_nat (length (concat bs)),
                    buckets := Ptr (replicate (unat (capacity t)) [])\<rparr>)"
proof (cases "capacity t = 0")
  case True
  with assms have "bs = []" by simp
  with True assms show ?thesis by (simp add: hashtable_remove_all_def)
next
  case False
  with assms remove_all_loop_upt [of "length bs" bs "size_ht t"] show ?thesis
    by (simp add: hashtable_remove_all_def deref_def)
qed

lemma hashtable_remove_all_size_counts:
  assumes "size_counts t" and "hashtable_remove_all t = Some t'"
  shows "size_counts t'"
proof (cases "buckets t")
  case NULL
  with assms show ?thesis
    by (auto simp: hashtable_remove_all_def deref_def split: if_splits)
next
  case (Ptr bs)
  with assms(1) have len: "length bs = unat (capacity t)"
    and sz: "size_ht t = of_nat (length (concat bs))"
    by (simp_all add: size_counts_Ptr)
  show ?thesis
  proof (cases "unat (capacity t) \<le> INT_MAX")
    case True
    with assms(2) Ptr len sz hashtable_remove_all_result [of t bs] show ?thesis
      by (auto simp: size_counts_def table_entries_def)
  next
    case False
    then have "capacity t \<noteq> 0" by auto
    with False assms(2) Ptr show ?thesis
      by (simp add: hashtable_remove_all_def deref_def)
  qed
qed

lemma reachable_size_counts: "reachable M conf t \<Longrightarrow> size_counts t"
proof (induction rule: reachable.induct)
  case (created table_ok buckets_ok t)
  then show ?case by (rule new_conf_size_counts)
next
  case (added t k v calloc_ok malloc_ok ok t')
  then show ?case by (blast intro: hashtable_add_size_counts)
next
  case (removed t k v t')
  then show ?case by (blast intro: hashtable_remove_size_counts)
next
  case (removed_all t t')
  then show ?case by (blast intro: hashtable_remove_all_size_counts)
qed

text \<open>
  C10. In every table reachable from \<^verbatim>\<open>hashtable_new_conf\<close> by \<^verbatim>\<open>hashtable_add\<close>
  (with the resizes it starts), \<^verbatim>\<open>hashtable_remove\<close> and \<^verbatim>\<open>hashtable_remove_all\<close>,
  whatever the allocations do, the \<^verbatim>\<open>size\<close> field is the total number of entries in
  the bucket chains. The field is a \<^verbatim>\<open>size_t\<close>, so the number is taken as one.
\<close>

theorem size_counts_entries:
  "reachable M conf t \<Longrightarrow> size_ht t = of_nat (length (table_entries t))"
  by (drule reachable_size_counts) (simp add: size_counts_def)

text \<open>The table made by \<^verbatim>\<open>hashtable_new\<close> after one insertion is such a table.\<close>

theorem size_counts_entries_witness:
  "(case hashtable_new (2 ^ 31 :: 32 word) True True of
      NULL \<Rightarrow> False
    | Ptr t0 \<Rightarrow>
        (case hashtable_add (2 ^ 31) t0 (Ptr ''a'') (Ptr (7 :: nat)) True True of
           None \<Rightarrow> False
         | Some (ok, t1) \<Rightarrow>
             reachable (2 ^ 31) hashtable_conf_init t1 \<and>
             size_ht t1 = of_nat (length (table_entries t1)) \<and> size_ht t1 = 1))"
proof -
  let ?M = "2 ^ 31 :: 32 word"
  obtain t0 :: "(string, nat, 32) HashTable" where t0: "hashtable_new ?M True True = Ptr t0"
    by (simp add: hashtable_new_def hashtable_new_conf_def Let_def)
  then have r0: "reachable ?M hashtable_conf_init t0"
    unfolding hashtable_new_def by (rule reachable.created)
  obtain ok t1 where t1: "hashtable_add ?M t0 (Ptr ''a'') (Ptr 7) True True = Some (ok, t1)"
    using t0 by (auto simp: ht_defs Let_def)
  from r0 t1 have r1: "reachable ?M hashtable_conf_init t1"
    by (rule reachable.added)
  then have "size_ht t1 = of_nat (length (table_entries t1))"
    by (rule size_counts_entries)
  moreover have "size_ht t1 = 1"
    using t0 t1 by (auto simp: ht_defs Let_def)
  ultimately show ?thesis
    using t0 t1 r1 by simp
qed


lemma mask_index_less:
  fixes c :: "'w::len word"
  shows "c \<noteq> 0 \<Longrightarrow> unat (h AND (c - 1)) < unat c"
proof -
  assume c: "c \<noteq> 0"
  have "unat (h AND (c - 1)) \<le> unat (c - 1)"
    by (rule word_and_le1 [THEN word_le_nat_alt [THEN iffD1]])
  also have "\<dots> = unat c - 1"
    using c by (rule unat_minus_one)
  also have "\<dots> < unat c"
    using c by (simp add: unat_gt_0)
  finally show ?thesis .
qed

lemma table_wf_iff:
  "table_wf t \<longleftrightarrow>
     (\<exists>bs. buckets t = Ptr bs \<and> capacity t \<noteq> 0 \<and> length bs = unat (capacity t) \<and>
           size_ht t = of_nat (length (concat bs)))"
  by (cases "buckets t") (auto simp: table_wf_def)

text \<open>
  On a well-formed table whose capacity fits the loop counter \<^verbatim>\<open>hashtable_remove_all\<close>
  returns; afterwards \<^verbatim>\<open>size\<close> is 0, every chain head is empty, \<^verbatim>\<open>capacity\<close> and
  \<^verbatim>\<open>threshold\<close> are what they were, and \<^verbatim>\<open>hashtable_contains_key\<close> returns false for
  every key that the hash function of the table accepts. The string hash does not
  accept the \<^verbatim>\<open>NULL\<close> key, which is the subject of the theorem after this one.
\<close>

lemma remove_all_clears:
  assumes "table_wf t" and fits: "unat (capacity t) \<le> INT_MAX"
  shows "\<exists>t'. hashtable_remove_all t = Some t' \<and> size_ht t' = 0 \<and>
              buckets t' = Ptr (replicate (unat (capacity t)) []) \<and>
              capacity t' = capacity t \<and> threshold t' = threshold t \<and>
              (\<forall>k. hash_fn t k (key_len t) (hash_seed t) \<noteq> None
                     \<longrightarrow> hashtable_contains_key t' k = Some False)"
proof -
  from assms obtain bs where bs: "buckets t = Ptr bs" and cap: "capacity t \<noteq> 0"
    and len: "length bs = unat (capacity t)" and sz: "size_ht t = of_nat (length (concat bs))"
    by (auto simp: table_wf_iff)
  define t' where "t' = t\<lparr>size_ht := 0, buckets := Ptr (replicate (unat (capacity t)) [])\<rparr>"
  have res: "hashtable_remove_all t = Some t'"
    using hashtable_remove_all_result [OF bs len fits] sz by (simp add: t'_def)
  have "hashtable_contains_key t' k = Some False"
    if "hash_fn t k (key_len t) (hash_seed t) \<noteq> None" for k
  proof -
    from that obtain h where h: "hash_fn t k (key_len t) (hash_seed t) = Some h" by auto
    from mask_index_less [OF cap, of h] h show ?thesis
      by (simp add: hashtable_contains_key_def get_table_index_def t'_def deref_def array_read_def)
  qed
  with res show ?thesis by (simp add: t'_def)
qed

text \<open>
  A table with one entry: the key is found before \<^verbatim>\<open>hashtable_remove_all\<close> and not
  after it.
\<close>

lemma remove_all_clears_example:
  "(case hashtable_new (2 ^ 31 :: 32 word) True True of
      NULL \<Rightarrow> False
    | Ptr t0 \<Rightarrow>
        (case hashtable_add (2 ^ 31) t0 (Ptr ''a'') (Ptr (7 :: nat)) True True of
           Some (True, t1) \<Rightarrow>
             table_wf t1 \<and> hashtable_contains_key t1 (Ptr ''a'') = Some True \<and>
             (case hashtable_remove_all t1 of
                None \<Rightarrow> False
              | Some t2 \<Rightarrow>
                  size_ht t2 = 0 \<and> buckets t2 = Ptr (replicate 16 []) \<and>
                  capacity t2 = 16 \<and> threshold t2 = 12 \<and>
                  hashtable_contains_key t2 (Ptr ''a'') = Some False)
         | _ \<Rightarrow> False))"
proof -
  let ?M = "2 ^ 31 :: 32 word"
  obtain t0 :: "(string, nat, 32) HashTable" where t0: "hashtable_new ?M True True = Ptr t0"
    by (simp add: hashtable_new_def hashtable_new_conf_def Let_def)
  obtain t1 where t1: "hashtable_add ?M t0 (Ptr ''a'') (Ptr 7) True True = Some (True, t1)"
    using t0 by (auto simp: ht_defs Let_def)
  have fields: "capacity t1 = 16" "threshold t1 = 12" "size_ht t1 = 1"
    "hash_fn t1 = hashtable_hash_string" "key_cmp t1 = hashtable_string_key_cmp"
    "buckets t1 = Ptr ((replicate 16 [])[5 := [\<lparr>key = Ptr ''a'', val = Ptr 7, hash = 177573\<rparr>]])"
    using t0 t1 by (auto simp: ht_defs Let_def)
  have wf: "table_wf t1"
    using length_concat_update [of 5 "replicate 16 []" "[\<lparr>key = Ptr ''a'', val = Ptr (7::nat), hash = 177573 :: 32 word\<rparr>]"]
    by (simp add: table_wf_def fields)
  have before: "hashtable_contains_key t1 (Ptr ''a'') = Some True"
    by (simp add: fields ht_defs)
  have h: "hash_fn t1 (Ptr ''a'') (key_len t1) (hash_seed t1) \<noteq> None"
    by (simp add: fields ht_defs)
  have "unat (capacity t1) \<le> INT_MAX"
    by (simp add: fields INT_MAX_def)
  from remove_all_clears [OF wf this] h obtain t2 where
    "hashtable_remove_all t1 = Some t2" "size_ht t2 = 0"
    "buckets t2 = Ptr (replicate (unat (capacity t1)) [])"
    "capacity t2 = capacity t1" "threshold t2 = threshold t1"
    "hashtable_contains_key t2 (Ptr ''a'') = Some False"
    by blast
  then show ?thesis
    using t0 t1 wf before by (simp add: fields)
qed

text \<open>
  C9. The table made by \<^verbatim>\<open>hashtable_new\<close> holds a mapping of the \<^verbatim>\<open>NULL\<close> key and is
  well-formed; the lookup of the \<^verbatim>\<open>NULL\<close> key returns its value.
  \<^verbatim>\<open>hashtable_remove_all\<close> returns: \<^verbatim>\<open>size\<close> is 0, every chain is empty, the capacity
  is 16 and the threshold 12 as before. For the \<^verbatim>\<open>NULL\<close> key, which was inserted,
  \<^verbatim>\<open>hashtable_contains_key\<close> then has no defined result: the function has no branch
  for the \<^verbatim>\<open>NULL\<close> key and hands it to the string hash, which reads through it.
\<close>

theorem contains_key_after_remove_all_null_key:
  "(case hashtable_new (2 ^ 31 :: 32 word) True True of
      NULL \<Rightarrow> False
    | Ptr t0 \<Rightarrow>
        (case hashtable_add (2 ^ 31) t0 NULL (Ptr (7 :: nat)) True True of
           Some (True, t1) \<Rightarrow>
             table_wf t1 \<and> hashtable_get t1 NULL = Some (Ptr 7) \<and>
             (case hashtable_remove_all t1 of
                None \<Rightarrow> False
              | Some t2 \<Rightarrow>
                  size_ht t2 = 0 \<and> buckets t2 = Ptr (replicate 16 []) \<and>
                  capacity t2 = 16 \<and> threshold t2 = 12 \<and>
                  hashtable_contains_key t2 NULL = None)
         | _ \<Rightarrow> False))"
proof -
  let ?M = "2 ^ 31 :: 32 word"
  let ?e = "\<lparr>key = NULL :: string ptr, val = Ptr (7 :: nat), hash = 0 :: 32 word\<rparr>"
  let ?bs = "(replicate 16 [])[0 := [?e]]"
  obtain t0 :: "(string, nat, 32) HashTable" where t0: "hashtable_new ?M True True = Ptr t0"
    by (simp add: hashtable_new_def hashtable_new_conf_def Let_def)
  obtain t1 where t1: "hashtable_add ?M t0 NULL (Ptr 7) True True = Some (True, t1)"
    using t0 by (auto simp: ht_defs Let_def)
  have fields: "capacity t1 = 16" "threshold t1 = 12" "size_ht t1 = 1"
    "hash_fn t1 = hashtable_hash_string" "buckets t1 = Ptr ?bs"
    using t0 t1 by (auto simp: ht_defs Let_def)
  have len: "length (concat ?bs) = 1"
    using length_concat_update [of 0 "replicate 16 []" "[?e]"] by simp
  have wf: "table_wf t1"
    by (simp add: table_wf_def fields len)
  have get: "hashtable_get t1 NULL = Some (Ptr 7)"
    by (simp add: fields ht_defs)
  have "hashtable_remove_all t1 =
          Some (t1\<lparr>size_ht := size_ht t1 - of_nat (length (concat ?bs)),
                   buckets := Ptr (replicate (unat (capacity t1)) [])\<rparr>)"
    by (rule hashtable_remove_all_result) (simp_all add: fields INT_MAX_def)
  then have all: "hashtable_remove_all t1 = Some (t1\<lparr>size_ht := 0, buckets := Ptr (replicate 16 [])\<rparr>)"
    by (simp add: fields len)
  have "hashtable_contains_key (t1\<lparr>size_ht := 0, buckets := Ptr (replicate 16 [])\<rparr>) NULL = None"
    by (simp add: fields ht_defs)
  with t0 t1 wf get all show ?thesis
    by (simp add: fields)
qed

section \<open>Rounding the capacity\<close>

lemma smear_step:
  fixes x y :: "'w::len word"
  assumes "\<And>i. bit y i \<longleftrightarrow> (\<exists>d<a. bit x (i + d))"
  shows "bit (y OR drop_bit a y) i \<longleftrightarrow> (\<exists>d<2 * a. bit x (i + d))"
proof
  assume "bit (y OR drop_bit a y) i"
  then consider "bit y i" | "bit y (a + i)"
    by (auto simp: bit_or_iff bit_drop_bit_eq)
  then show "\<exists>d<2 * a. bit x (i + d)"
  proof cases
    case 1
    with assms obtain d where "d < a" "bit x (i + d)" by blast
    then show ?thesis by (intro exI [of _ d]) simp
  next
    case 2
    with assms obtain d where "d < a" "bit x (a + i + d)" by blast
    then show ?thesis by (intro exI [of _ "a + d"]) (simp add: ac_simps)
  qed
next
  assume "\<exists>d<2 * a. bit x (i + d)"
  then obtain d where d: "d < 2 * a" "bit x (i + d)" by blast
  show "bit (y OR drop_bit a y) i"
  proof (cases "d < a")
    case True
    with d assms have "bit y i" by blast
    then show ?thesis by (simp add: bit_or_iff)
  next
    case False
    with d have "d - a < a" "bit x (a + i + (d - a))" by (simp_all add: ac_simps)
    with assms have "bit y (a + i)" by blast
    then show ?thesis by (simp add: bit_or_iff bit_drop_bit_eq)
  qed
qed

lemma bit_smear:
  fixes x :: "'w::len word"
  shows "bit (smear x) i \<longleftrightarrow> (\<exists>d<32. bit x (i + d))"
proof -
  define y1 where "y1 = x OR drop_bit 1 x"
  define y2 where "y2 = y1 OR drop_bit 2 y1"
  define y3 where "y3 = y2 OR drop_bit 4 y2"
  define y4 where "y4 = y3 OR drop_bit 8 y3"
  define y5 where "y5 = y4 OR drop_bit 16 y4"
  have 0: "bit x i \<longleftrightarrow> (\<exists>d<1. bit x (i + d))" for i by simp
  have 1: "bit y1 i \<longleftrightarrow> (\<exists>d<2. bit x (i + d))" for i
    unfolding y1_def using smear_step [of x 1 x i, OF 0] by simp
  have 2: "bit y2 i \<longleftrightarrow> (\<exists>d<4. bit x (i + d))" for i
    unfolding y2_def using smear_step [of y1 2 x i, OF 1] by simp
  have 3: "bit y3 i \<longleftrightarrow> (\<exists>d<8. bit x (i + d))" for i
    unfolding y3_def using smear_step [of y2 4 x i, OF 2] by simp
  have 4: "bit y4 i \<longleftrightarrow> (\<exists>d<16. bit x (i + d))" for i
    unfolding y4_def using smear_step [of y3 8 x i, OF 3] by simp
  have 5: "bit y5 i \<longleftrightarrow> (\<exists>d<32. bit x (i + d))" for i
    unfolding y5_def using smear_step [of y4 16 x i, OF 4] by simp
  have "smear x = y5"
    by (simp add: smear_def Let_def y5_def y4_def y3_def y2_def y1_def)
  with 5 show ?thesis by simp
qed

lemma bit_nat_less_exp:
  fixes n :: nat
  assumes "n < 2 ^ l" and "bit n j"
  shows "j < l"
proof (rule ccontr)
  assume "\<not> j < l"
  then have "(2 :: nat) ^ l \<le> 2 ^ j" by simp
  with assms(1) have "n < 2 ^ j" by (rule less_le_trans)
  then have "n div 2 ^ j = 0" by simp
  with assms(2) show False by (simp add: bit_iff_odd)
qed

lemma bit_nat_top:
  fixes n :: nat
  assumes "n < 2 ^ Suc l" and "2 ^ l \<le> n"
  shows "bit n l"
proof -
  from assms have "n div 2 ^ l = 1"
    by (intro div_nat_eqI) simp_all
  then show ?thesis by (simp add: bit_iff_odd)
qed

lemma bit_unat: "bit (unat x) j \<longleftrightarrow> bit x j"
  by (simp add: bit_unsigned_iff)

lemma smear_eq_mask:
  fixes x :: "'w::len word"
  assumes "unat x < 2 ^ l" and "l \<le> 32" and "l = 0 \<or> 2 ^ (l - 1) \<le> unat x"
  shows "smear x = mask l"
proof (rule bit_word_eqI)
  fix i assume i: "i < LENGTH('w)"
  show "bit (smear x) i \<longleftrightarrow> bit (mask l :: 'w word) i"
  proof
    assume "bit (smear x) i"
    then obtain d where "bit x (i + d)" by (auto simp: bit_smear)
    then have "bit (unat x) (i + d)" by (simp add: bit_unat)
    with assms(1) have "i + d < l" by (rule bit_nat_less_exp)
    with i show "bit (mask l :: 'w word) i" by (simp add: bit_mask_iff)
  next
    assume "bit (mask l :: 'w word) i"
    then have il: "i < l" by (simp add: bit_mask_iff)
    then obtain l' where l': "l = Suc l'" by (cases l) auto
    with assms have "bit (unat x) l'" by (intro bit_nat_top) auto
    then have "bit x (i + (l' - i))" using il l' by (simp add: bit_unat)
    moreover have "l' - i < 32" using assms(2) l' by simp
    ultimately show "bit (smear x) i" unfolding bit_smear by blast
  qed
qed

lemma bit_length_exists:
  fixes n :: nat
  assumes "n < 2 ^ b"
  obtains l where "n < 2 ^ l" "l \<le> b" "l = 0 \<or> 2 ^ (l - 1) \<le> n"
proof -
  define l where "l = (LEAST l. n < 2 ^ l)"
  have 1: "n < 2 ^ l" unfolding l_def using assms by (rule LeastI)
  have 2: "l \<le> b" unfolding l_def using assms by (rule Least_le)
  have 3: "l = 0 \<or> 2 ^ (l - 1) \<le> n"
  proof (cases l)
    case 0
    then show ?thesis by simp
  next
    case (Suc l')
    then have "l' < (LEAST l. n < 2 ^ l)" by (simp add: l_def)
    then have "\<not> n < 2 ^ l'" by (rule not_less_Least)
    with Suc show ?thesis by simp
  qed
  from 1 2 3 that show thesis by blast
qed

lemma unat_exp:
  "m < LENGTH('w) \<Longrightarrow> unat (2 ^ m :: 'w::len word) = 2 ^ m"
proof -
  assume m: "m < LENGTH('w)"
  have "unat (of_nat (2 ^ m) :: 'w word) = 2 ^ m mod 2 ^ LENGTH('w)"
    by (rule unat_of_nat)
  with m show ?thesis by simp
qed

lemma round_pow_two_smear:
  "round_pow_two M n = (if M \<le> n then M else if n = 0 then 2 else smear (n - 1) + 1)"
  by (simp add: round_pow_two_def smear_def Let_def)

lemma round_pow_two_rounds:
  fixes M n :: "'w::len word"
  assumes M: "M = 2 ^ m" "m < LENGTH('w)" and n: "0 < n" "n < M"
    and small: "m \<le> 32 \<or> unat n \<le> 2 ^ 32"
  shows "\<exists>j\<le>m. round_pow_two M n = 2 ^ j \<and> unat n \<le> 2 ^ j \<and> (j = 0 \<or> 2 ^ (j - 1) < unat n)"
proof -
  have unatM: "unat M = 2 ^ m" using M by (simp add: unat_exp)
  from n have n0: "0 < unat n" and nM: "unat n < 2 ^ m"
    by (simp_all add: word_less_nat_alt unatM)
  have x: "unat (n - 1) = unat n - 1"
    using n(1) by (intro unat_minus_one) auto
  define b where "b = min m 32"
  have "unat (n - 1) < 2 ^ b"
  proof (cases "m \<le> 32")
    case True
    with nM n0 x show ?thesis by (simp add: b_def min_def)
  next
    case False
    with small have "unat n \<le> 2 ^ 32" by simp
    with False n0 x show ?thesis by (simp add: b_def min_def)
  qed
  then obtain l where l: "unat (n - 1) < 2 ^ l" "l \<le> b" "l = 0 \<or> 2 ^ (l - 1) \<le> unat (n - 1)"
    by (rule bit_length_exists)
  then have "smear (n - 1) = mask l"
    by (intro smear_eq_mask) (simp_all add: b_def)
  moreover from n have "\<not> M \<le> n" "n \<noteq> 0" by auto
  ultimately have "round_pow_two M n = 2 ^ l"
    by (simp add: round_pow_two_smear mask_eq_decr_exp)
  moreover have "l \<le> m" using l(2) by (simp add: b_def)
  moreover have "unat n \<le> 2 ^ l" using l(1) x n0 by simp
  moreover have "l = 0 \<or> 2 ^ (l - 1) < unat n" using l(3) x n0 by auto
  ultimately show ?thesis by blast
qed

section \<open>Chains as multisets\<close>

lemma mset_concat_update:
  "i < length bs \<Longrightarrow>
   mset (concat (bs[i := c])) + mset (bs ! i) = mset (concat bs) + mset c"
proof (induction bs arbitrary: i)
  case Nil
  then show ?case by simp
next
  case (Cons b bs)
  then show ?case by (cases i) (auto simp: ac_simps)
qed

lemma in_concat_nth:
  "e \<in> set (concat bs) \<longleftrightarrow> (\<exists>i<length bs. e \<in> set (bs ! i))"
proof
  assume "e \<in> set (concat bs)"
  then obtain b where "b \<in> set bs" "e \<in> set b" by auto
  then show "\<exists>i<length bs. e \<in> set (bs ! i)" by (auto simp: in_set_conv_nth [of b bs])
next
  assume "\<exists>i<length bs. e \<in> set (bs ! i)"
  then obtain i where "i < length bs" "e \<in> set (bs ! i)" by blast
  then show "e \<in> set (concat bs)" using nth_mem [of i bs] by auto
qed

lemma nth_subset_concat: "i < length bs \<Longrightarrow> set (bs ! i) \<subseteq> set (concat bs)"
  by (auto intro!: bexI [where x = "bs ! i"])

lemma distinct_map_concat_nth:
  "distinct (map f (concat bs)) \<Longrightarrow> i < length bs \<Longrightarrow> distinct (map f (bs ! i))"
proof (induction bs arbitrary: i)
  case Nil
  then show ?case by simp
next
  case (Cons b bs)
  then show ?case by (cases i) auto
qed

lemma distinct_map_mset_cong:
  "mset xs = mset ys \<Longrightarrow> distinct (map f xs) \<longleftrightarrow> distinct (map f ys)"
  by (metis mset_eq_imp_distinct_iff mset_map)

subsection \<open>Looking a key up in a list of entries\<close>

lemma lookup_entries_Nil [simp]: "lookup_entries [] k = NULL"
  by (simp add: lookup_entries_def)

lemma lookup_entries_Cons [simp]:
  "lookup_entries (e # es) k = (if key e = k then val e else lookup_entries es k)"
  by (simp add: lookup_entries_def)

lemma lookup_entries_absent:
  "k \<notin> key ` set es \<Longrightarrow> lookup_entries es k = NULL"
  by (induction es) auto

lemma lookup_entries_present:
  "distinct (map key es) \<Longrightarrow> e \<in> set es \<Longrightarrow> lookup_entries es (key e) = val e"
  by (induction es) (auto simp: image_iff)

lemma null_key_scan_lookup: "null_key_scan c = lookup_entries c NULL"
  by (induction c) auto

lemma key_scan_lookup:
  "\<forall>e\<in>set c. cmp (key e) k = Some (key e = k) \<Longrightarrow> key_scan cmp k c = Some (lookup_entries c k)"
  by (induction c) auto

lemma contains_scan_decides:
  "\<forall>e\<in>set c. cmp k (key e) = Some (k = key e) \<Longrightarrow>
   contains_scan cmp k c = Some (k \<in> key ` set c)"
  by (induction c) (auto split: bool.splits)

subsection \<open>Replacing and unlinking in a chain\<close>

lemma key_replace_fields:
  "key_replace cmp k v c = Some (Some c') \<Longrightarrow> map key c' = map key c \<and> map hash c' = map hash c"
  by (induction c arbitrary: c') (auto split: option.splits bool.splits)

lemma null_key_replace_fields:
  "null_key_replace v c = Some c' \<Longrightarrow> map key c' = map key c \<and> map hash c' = map hash c"
  by (induction c arbitrary: c') (auto split: if_splits)

lemma key_replace_absent:
  "\<forall>e\<in>set c. cmp (key e) k = Some False \<Longrightarrow> key_replace cmp k v c = Some None"
  by (induction c) auto

lemma null_key_replace_absent:
  "NULL \<notin> key ` set c \<Longrightarrow> null_key_replace v c = None"
  by (induction c) auto

lemma key_replace_present:
  assumes "\<forall>e\<in>set c. cmp (key e) k = Some (key e = k)"
    and "distinct (map key c)" and "e \<in> set c" and "key e = k"
  shows "\<exists>c'. key_replace cmp k v c = Some (Some c') \<and>
              mset c' + {#e#} = mset c + {#e\<lparr>val := v\<rparr>#}"
  using assms
proof (induction c)
  case Nil
  then show ?case by simp
next
  case (Cons a c)
  show ?case
  proof (cases "key a = k")
    case True
    with Cons.prems have "a = e" by (auto simp: image_iff)
    with True Cons.prems show ?thesis by simp
  next
    case False
    with Cons.prems have "e \<in> set c" by auto
    with Cons obtain c' where "key_replace cmp k v c = Some (Some c')"
      "mset c' + {#e#} = mset c + {#e\<lparr>val := v\<rparr>#}" by auto
    with False Cons.prems show ?thesis by simp
  qed
qed

lemma null_key_replace_present:
  assumes "distinct (map key c)" and "e \<in> set c" and "key e = NULL"
  shows "\<exists>c'. null_key_replace v c = Some c' \<and>
              mset c' + {#e#} = mset c + {#e\<lparr>val := v\<rparr>#}"
  using assms
proof (induction c)
  case Nil
  then show ?case by simp
next
  case (Cons a c)
  show ?case
  proof (cases "key a = NULL")
    case True
    with Cons.prems have "a = e" by (auto simp: image_iff)
    with True Cons.prems show ?thesis by simp
  next
    case False
    with Cons.prems have "e \<in> set c" by auto
    with Cons obtain c' where "null_key_replace v c = Some c'"
      "mset c' + {#e#} = mset c + {#e\<lparr>val := v\<rparr>#}" by auto
    with False Cons.prems show ?thesis by simp
  qed
qed

lemma key_unlink_absent:
  "\<forall>e\<in>set c. cmp k (key e) = Some False \<Longrightarrow> key_unlink cmp k c = Some None"
  by (induction c) auto

lemma null_key_unlink_absent:
  "NULL \<notin> key ` set c \<Longrightarrow> null_key_unlink c = None"
  by (induction c) auto


section \<open>The representation invariant\<close>

lemma mask_index_less':
  fixes c :: "'w::len word"
  shows "c \<noteq> 0 \<Longrightarrow> length bs = unat c \<Longrightarrow> unat (h AND (c - 1)) < length bs"
  by (simp add: mask_index_less)

lemma table_invE:
  assumes "table_inv KS t"
  obtains bs where "buckets t = Ptr bs" "capacity t \<noteq> 0" "length bs = unat (capacity t)"
    "size_ht t = of_nat (length (concat bs))"
    "\<And>i e. i < length bs \<Longrightarrow> e \<in> set (bs ! i) \<Longrightarrow> unat (hash e AND (capacity t - 1)) = i"
    "distinct (map key (concat bs))"
    "\<And>e. e \<in> set (concat bs) \<Longrightarrow> key e \<in> KS"
    "\<And>e. e \<in> set (concat bs) \<Longrightarrow> cached_hash_ok t e"
    "keys_ok (hash_fn t) (key_cmp t) (key_len t) (hash_seed t) KS"
  using assms
  by (cases "buckets t")
     (auto simp: table_inv_def table_wf_def entries_indexed_def table_entries_def)

lemma table_invI:
  assumes "buckets t = Ptr bs" "capacity t \<noteq> 0" "length bs = unat (capacity t)"
    "size_ht t = of_nat (length (concat bs))"
    "\<And>i e. i < length bs \<Longrightarrow> e \<in> set (bs ! i) \<Longrightarrow> unat (hash e AND (capacity t - 1)) = i"
    "distinct (map key (concat bs))"
    "\<And>e. e \<in> set (concat bs) \<Longrightarrow> key e \<in> KS \<and> cached_hash_ok t e"
    "keys_ok (hash_fn t) (key_cmp t) (key_len t) (hash_seed t) KS"
  shows "table_inv KS t"
  using assms
  by (auto simp: table_inv_def table_wf_def entries_indexed_def table_entries_def)

lemma keys_ok_hash:
  "keys_ok h cmp len seed KS \<Longrightarrow> k \<in> KS \<Longrightarrow> k \<noteq> NULL \<Longrightarrow> \<exists>x. h k len seed = Some x"
  by (auto simp: keys_ok_def)

lemma keys_ok_cmp:
  "keys_ok h cmp len seed KS \<Longrightarrow> a \<in> KS \<Longrightarrow> k \<in> KS \<Longrightarrow> k \<noteq> NULL \<Longrightarrow>
   cmp a k = Some (a = k) \<and> cmp k a = Some (k = a)"
  by (auto simp: keys_ok_def)

text \<open>The chain in which an entry with a given key can be.\<close>

lemma entry_home:
  assumes inv: "table_inv KS t" and bs: "buckets t = Ptr bs"
    and e: "e \<in> set (concat bs)"
  shows "key e = NULL \<Longrightarrow> e \<in> set (bs ! 0)"
    and "key e \<noteq> NULL \<Longrightarrow> hash_fn t (key e) (key_len t) (hash_seed t) = Some h \<Longrightarrow>
         e \<in> set (bs ! unat (h AND (capacity t - 1)))"
proof -
  from inv obtain bs' where "buckets t = Ptr bs'"
    and idx': "\<And>i e. i < length bs' \<Longrightarrow> e \<in> set (bs' ! i) \<Longrightarrow>
      unat (hash e AND (capacity t - 1)) = i"
    and cached': "\<And>e. e \<in> set (concat bs') \<Longrightarrow> cached_hash_ok t e"
    by (rule table_invE) blast
  with bs have [simp]: "bs' = bs" by simp
  from idx' have idx: "\<And>i e. i < length bs \<Longrightarrow> e \<in> set (bs ! i) \<Longrightarrow>
      unat (hash e AND (capacity t - 1)) = i" by simp
  from cached' e have cached: "cached_hash_ok t e" by simp
  from e obtain i where i: "i < length bs" "e \<in> set (bs ! i)"
    unfolding in_concat_nth by blast
  with idx have home: "unat (hash e AND (capacity t - 1)) = i" by blast
  {
    assume "key e = NULL"
    with cached have "hash e = 0" by (simp add: cached_hash_ok_def)
    with home i show "e \<in> set (bs ! 0)" by simp
  }
  {
    assume "key e \<noteq> NULL" "hash_fn t (key e) (key_len t) (hash_seed t) = Some h"
    with cached have "hash e = h" by (cases "key e") (simp_all add: cached_hash_ok_def)
    with home i show "e \<in> set (bs ! unat (h AND (capacity t - 1)))" by simp
  }
qed

lemma lookup_in_home:
  assumes "distinct (map key (concat bs))" and "i < length bs"
    and "\<And>e. e \<in> set (concat bs) \<Longrightarrow> key e = k \<Longrightarrow> e \<in> set (bs ! i)"
  shows "lookup_entries (bs ! i) k = lookup_entries (concat bs) k"
proof (cases "k \<in> key ` set (concat bs)")
  case True
  then obtain e where e: "e \<in> set (concat bs)" "key e = k" by auto
  with assms(3) have "e \<in> set (bs ! i)" by blast
  moreover from assms(1,2) have "distinct (map key (bs ! i))"
    by (rule distinct_map_concat_nth)
  ultimately have "lookup_entries (bs ! i) (key e) = val e"
    by (intro lookup_entries_present)
  moreover from assms(1) e(1) have "lookup_entries (concat bs) (key e) = val e"
    by (rule lookup_entries_present)
  ultimately show ?thesis using e(2) by simp
next
  case False
  moreover from assms(2) have "set (bs ! i) \<subseteq> set (concat bs)"
    by (rule nth_subset_concat)
  ultimately have "k \<notin> key ` set (bs ! i)" by auto
  with False show ?thesis by (simp add: lookup_entries_absent)
qed

lemma hashtable_get_correct:
  assumes inv: "table_inv KS t" and k: "k \<in> KS"
  shows "hashtable_get t k = Some (lookup_entries (table_entries t) k)"
proof -
  from inv obtain bs where bs: "buckets t = Ptr bs" and cap: "capacity t \<noteq> 0"
    and len: "length bs = unat (capacity t)"
    and dist: "distinct (map key (concat bs))"
    and inKS: "\<And>e. e \<in> set (concat bs) \<Longrightarrow> key e \<in> KS"
    and ok: "keys_ok (hash_fn t) (key_cmp t) (key_len t) (hash_seed t) KS"
    by (rule table_invE) blast
  have entries: "table_entries t = concat bs" by (simp add: table_entries_def bs)
  show ?thesis
  proof (cases "k = NULL")
    case True
    from cap len have 0: "0 < length bs" by (simp add: unat_gt_0)
    have "lookup_entries (bs ! 0) NULL = lookup_entries (concat bs) NULL"
      using dist 0 entry_home(1) [OF inv bs] by (rule lookup_in_home)
    with True 0 show ?thesis
      by (simp add: hashtable_get_def get_null_key_def deref_def array_read_def bs entries
          null_key_scan_lookup)
  next
    case False
    with ok k obtain h where h: "hash_fn t k (key_len t) (hash_seed t) = Some h"
      by (blast dest: keys_ok_hash)
    let ?i = "unat (h AND (capacity t - 1))"
    from cap len have i: "?i < length bs" by (rule mask_index_less')
    have "lookup_entries (bs ! ?i) k = lookup_entries (concat bs) k"
      using dist i
    proof (rule lookup_in_home)
      fix e assume "e \<in> set (concat bs)" "key e = k"
      with entry_home(2) [OF inv bs, of e h] False h show "e \<in> set (bs ! ?i)" by simp
    qed
    moreover have "\<forall>e\<in>set (bs ! ?i). key_cmp t (key e) k = Some (key e = k)"
    proof
      fix e assume "e \<in> set (bs ! ?i)"
      with i have "e \<in> set (concat bs)" using nth_subset_concat [of ?i bs] by blast
      then have "key e \<in> KS" by (rule inKS)
      with ok k False show "key_cmp t (key e) k = Some (key e = k)"
        by (blast dest: keys_ok_cmp)
    qed
    ultimately show ?thesis
      using False h i
      by (simp add: hashtable_get_def get_table_index_def deref_def array_read_def bs entries
          key_scan_lookup)
  qed
qed


subsection \<open>Changing one chain\<close>

lemma set_concat_update:
  assumes "i < length bs"
  shows "set (concat (bs[i := c])) \<subseteq> set c \<union> set (concat bs)"
proof -
  from mset_concat_update [OF assms, of c]
  have "set_mset (mset (concat (bs[i := c])) + mset (bs ! i)) = set_mset (mset (concat bs) + mset c)"
    by simp
  then show ?thesis by (auto simp del: set_concat)
qed

lemma cached_hash_ok_cong:
  "hash_fn t' = hash_fn t \<Longrightarrow> key_len t' = key_len t \<Longrightarrow> hash_seed t' = hash_seed t \<Longrightarrow>
   cached_hash_ok t' e = cached_hash_ok t e"
  by (simp add: cached_hash_ok_def split: ptr.splits)

lemma table_inv_update_bucket:
  assumes inv: "table_inv KS t" and bs: "buckets t = Ptr bs" and i: "i < length bs"
    and c': "\<And>e. e \<in> set c' \<Longrightarrow>
               unat (hash e AND (capacity t - 1)) = i \<and> key e \<in> KS \<and> cached_hash_ok t e"
    and dist: "distinct (map key (concat (bs[i := c'])))"
    and sz: "sz = of_nat (length (concat (bs[i := c'])))"
  shows "table_inv KS (t\<lparr>buckets := Ptr (bs[i := c']), size_ht := sz\<rparr>)"
proof -
  from inv obtain bs0 where bs0: "buckets t = Ptr bs0" and cap: "capacity t \<noteq> 0"
    and len: "length bs0 = unat (capacity t)"
    and idx: "\<And>i e. i < length bs0 \<Longrightarrow> e \<in> set (bs0 ! i) \<Longrightarrow>
          unat (hash e AND (capacity t - 1)) = i"
    and inKS: "\<And>e. e \<in> set (concat bs0) \<Longrightarrow> key e \<in> KS"
    and cached: "\<And>e. e \<in> set (concat bs0) \<Longrightarrow> cached_hash_ok t e"
    and ok: "keys_ok (hash_fn t) (key_cmp t) (key_len t) (hash_seed t) KS"
    by (rule table_invE) blast
  from bs bs0 have [simp]: "bs0 = bs" by simp
  let ?t = "t\<lparr>buckets := Ptr (bs[i := c']), size_ht := sz\<rparr>"
  show ?thesis
  proof (rule table_invI [where bs = "bs[i := c']"])
    show "buckets ?t = Ptr (bs[i := c'])" by simp
    show "capacity ?t \<noteq> 0" using cap by simp
    show "length (bs[i := c']) = unat (capacity ?t)" using len by simp
    show "size_ht ?t = of_nat (length (concat (bs[i := c'])))" using sz by simp
    show "distinct (map key (concat (bs[i := c'])))" by (rule dist)
    show "keys_ok (hash_fn ?t) (key_cmp ?t) (key_len ?t) (hash_seed ?t) KS" using ok by simp
  next
    fix j e assume j: "j < length (bs[i := c'])" and e: "e \<in> set (bs[i := c'] ! j)"
    show "unat (hash e AND (capacity ?t - 1)) = j"
    proof (cases "j = i")
      case True
      with e i c' show ?thesis by simp
    next
      case False
      with e j idx [of j e] show ?thesis by simp
    qed
  next
    fix e assume "e \<in> set (concat (bs[i := c']))"
    with set_concat_update [OF i, of c'] have "e \<in> set c' \<or> e \<in> set (concat bs)" by blast
    then have "key e \<in> KS \<and> cached_hash_ok t e"
      using c' inKS cached by auto
    then show "key e \<in> KS \<and> cached_hash_ok ?t e"
      by (simp add: cached_hash_ok_cong [of ?t t])
  qed
qed

lemma concat_update_same_keys:
  assumes "i < length bs" and "map key c' = map key (bs ! i)"
  shows "map key (concat (bs[i := c'])) = map key (concat bs)"
proof -
  have "map key (concat (bs[i := c'])) = concat ((map (map key) bs)[i := map key c'])"
    by (simp add: map_concat map_update)
  also have "\<dots> = concat ((map (map key) bs)[i := map (map key) bs ! i])"
    using assms by simp
  also have "\<dots> = map key (concat bs)"
    by (simp add: map_concat)
  finally show ?thesis .
qed

lemma mset_concat_cons:
  assumes "i < length bs"
  shows "mset (concat (bs[i := e # bs ! i])) = add_mset e (mset (concat bs))"
  using mset_concat_update [OF assms, of "e # bs ! i"] by simp

lemma mset_eq_length': "mset xs = add_mset e (mset ys) \<Longrightarrow> length xs = Suc (length ys)"
  by (metis mset_eq_length size_add_mset size_mset)


subsection \<open>Adding an entry\<close>

lemma table_inv_cons:
  assumes inv: "table_inv KS t" and bs: "buckets t = Ptr bs" and i: "i < length bs"
    and e: "unat (hash e AND (capacity t - 1)) = i" "key e \<in> KS" "cached_hash_ok t e"
    and new: "key e \<notin> key ` set (concat bs)"
  shows "table_inv KS (t\<lparr>buckets := Ptr (bs[i := e # bs ! i]), size_ht := size_ht t + 1\<rparr>)"
  using inv bs i
proof (rule table_inv_update_bucket)
  from inv bs have dist: "distinct (map key (concat bs))"
    and idx: "\<And>e. e \<in> set (bs ! i) \<Longrightarrow> unat (hash e AND (capacity t - 1)) = i"
    and rest: "\<And>e. e \<in> set (concat bs) \<Longrightarrow> key e \<in> KS \<and> cached_hash_ok t e"
    and sz: "size_ht t = of_nat (length (concat bs))"
    using i by (auto elim!: table_invE simp del: set_concat)
  note ms = mset_concat_cons [OF i, of e]
  fix x assume "x \<in> set (e # bs ! i)"
  then consider "x = e" | "x \<in> set (bs ! i)" by auto
  then show "unat (hash x AND (capacity t - 1)) = i \<and> key x \<in> KS \<and> cached_hash_ok t x"
  proof cases
    case 1
    with e show ?thesis by simp
  next
    case 2
    moreover from 2 i have "x \<in> set (concat bs)" using nth_subset_concat [of i bs] by blast
    ultimately show ?thesis using idx rest by blast
  qed
next
  from inv bs have dist: "distinct (map key (concat bs))"
    by (auto elim!: table_invE)
  with new have "distinct (map key (e # concat bs))" by simp
  moreover have "mset (concat (bs[i := e # bs ! i])) = mset (e # concat bs)"
    using mset_concat_cons [OF i, of e] by simp
  ultimately show "distinct (map key (concat (bs[i := e # bs ! i])))"
    using distinct_map_mset_cong by blast
next
  from inv bs have sz: "size_ht t = of_nat (length (concat bs))"
    by (auto elim!: table_invE)
  from mset_concat_cons [OF i, of e]
  have "length (concat (bs[i := e # bs ! i])) = Suc (length (concat bs))"
    by (rule mset_eq_length')
  with sz show "size_ht t + 1 = of_nat (length (concat (bs[i := e # bs ! i])))" by simp
qed

lemma add_entry_new:
  assumes inv: "table_inv KS t" and k: "k \<in> KS"
    and absent: "k \<notin> key ` set (table_entries t)"
  shows "\<exists>t' e. add_entry t k v True = Some (True, t') \<and> table_inv KS t' \<and>
           size_ht t' = size_ht t + 1 \<and> capacity t' = capacity t \<and>
           threshold t' = threshold t \<and> load_factor t' = load_factor t \<and>
           hash_fn t' = hash_fn t \<and> key_cmp t' = key_cmp t \<and>
           key_len t' = key_len t \<and> hash_seed t' = hash_seed t \<and>
           key e = k \<and> val e = v \<and>
           mset (table_entries t') = add_mset e (mset (table_entries t))"
proof -
  from inv obtain bs where bs: "buckets t = Ptr bs" and cap: "capacity t \<noteq> 0"
    and len: "length bs = unat (capacity t)"
    and inKS: "\<And>e. e \<in> set (concat bs) \<Longrightarrow> key e \<in> KS"
    and ok: "keys_ok (hash_fn t) (key_cmp t) (key_len t) (hash_seed t) KS"
    by (rule table_invE) blast
  have entries: "table_entries t = concat bs" by (simp add: table_entries_def bs)
  show ?thesis
  proof (cases "k = NULL")
    case True
    from cap len have 0: "0 < length bs" by (simp add: unat_gt_0)
    let ?e = "\<lparr>key = NULL, val = v, hash = 0 :: 'c word\<rparr>"
    let ?t = "t\<lparr>buckets := Ptr (bs[0 := ?e # bs ! 0]), size_ht := size_ht t + 1\<rparr>"
    from absent True 0 have "NULL \<notin> key ` set (bs ! 0)"
      using nth_subset_concat [of 0 bs] by (auto simp: entries simp del: set_concat)
    then have "null_key_replace v (bs ! 0) = None" by (rule null_key_replace_absent)
    with True 0 have "add_entry t k v True = Some (True, ?t)"
      by (simp add: add_entry_def add_null_key_def deref_def array_read_def bs)
    moreover have "table_inv KS ?t"
      using inv bs 0
    proof (rule table_inv_cons)
      show "unat (hash ?e AND (capacity t - 1)) = 0" by simp
      show "key ?e \<in> KS" using k True by simp
      show "cached_hash_ok t ?e" by (simp add: cached_hash_ok_def)
      show "key ?e \<notin> key ` set (concat bs)" using absent True by (simp add: entries)
    qed
    moreover have "mset (table_entries ?t) = add_mset ?e (mset (table_entries t))"
      using mset_concat_cons [OF 0, of ?e] by (simp add: table_entries_def bs)
    ultimately show ?thesis using True
      by (intro exI [of _ ?t] exI [of _ ?e]) simp
  next
    case False
    with ok k obtain h where h: "hash_fn t k (key_len t) (hash_seed t) = Some h"
      by (blast dest: keys_ok_hash)
    let ?i = "unat (h AND (capacity t - 1))"
    from cap len have i: "?i < length bs" by (rule mask_index_less')
    let ?e = "\<lparr>key = k, val = v, hash = h\<rparr>"
    let ?t = "t\<lparr>buckets := Ptr (bs[?i := ?e # bs ! ?i]), size_ht := size_ht t + 1\<rparr>"
    have "\<forall>e\<in>set (bs ! ?i). key_cmp t (key e) k = Some False"
    proof
      fix e assume "e \<in> set (bs ! ?i)"
      with i have e: "e \<in> set (concat bs)" using nth_subset_concat [of ?i bs] by blast
      then have "key e \<in> KS" by (rule inKS)
      with ok k False have "key_cmp t (key e) k = Some (key e = k)"
        by (blast dest: keys_ok_cmp)
      moreover from e absent have "key e \<noteq> k" by (auto simp: entries simp del: set_concat)
      ultimately show "key_cmp t (key e) k = Some False" by simp
    qed
    then have "key_replace (key_cmp t) k v (bs ! ?i) = Some None"
      by (rule key_replace_absent)
    with False h i have "add_entry t k v True = Some (True, ?t)"
      by (simp add: add_entry_def deref_def array_read_def bs Let_def)
    moreover have "table_inv KS ?t"
      using inv bs i
    proof (rule table_inv_cons)
      show "unat (hash ?e AND (capacity t - 1)) = ?i" by simp
      show "key ?e \<in> KS" using k by simp
      show "cached_hash_ok t ?e" using h False by (cases k) (simp_all add: cached_hash_ok_def)
      show "key ?e \<notin> key ` set (concat bs)" using absent by (simp add: entries)
    qed
    moreover have "mset (table_entries ?t) = add_mset ?e (mset (table_entries t))"
      using mset_concat_cons [OF i, of ?e] by (simp add: table_entries_def bs)
    ultimately show ?thesis
      by (intro exI [of _ ?t] exI [of _ ?e]) simp
  qed
qed


lemma table_inv_replace:
  assumes inv: "table_inv KS t" and bs: "buckets t = Ptr bs" and i: "i < length bs"
    and e: "e \<in> set (bs ! i)"
    and keys: "map key c' = map key (bs ! i)"
    and ms: "mset c' + {#e#} = mset (bs ! i) + {#e\<lparr>val := v\<rparr>#}"
  shows "table_inv KS (t\<lparr>buckets := Ptr (bs[i := c'])\<rparr>)"
    and "mset (concat (bs[i := c'])) + {#e#} = mset (concat bs) + {#e\<lparr>val := v\<rparr>#}"
proof -
  from inv bs have dist: "distinct (map key (concat bs))"
    and idx: "\<And>e. e \<in> set (bs ! i) \<Longrightarrow> unat (hash e AND (capacity t - 1)) = i"
    and rest: "\<And>e. e \<in> set (concat bs) \<Longrightarrow> key e \<in> KS \<and> cached_hash_ok t e"
    and sz: "size_ht t = of_nat (length (concat bs))"
    using i by (auto elim!: table_invE simp del: set_concat)
  have sub: "set (bs ! i) \<subseteq> set (concat bs)" using i by (rule nth_subset_concat)
  have same: "map key (concat (bs[i := c'])) = map key (concat bs)"
    using i keys by (rule concat_update_same_keys)
  have "table_inv KS (t\<lparr>buckets := Ptr (bs[i := c']), size_ht := size_ht t\<rparr>)"
    using inv bs i
  proof (rule table_inv_update_bucket)
    fix x assume "x \<in> set c'"
    then have "x \<in># mset c' + {#e#}" by simp
    then have "x \<in># mset (bs ! i) + {#e\<lparr>val := v\<rparr>#}" by (simp only: ms)
    then consider "x \<in> set (bs ! i)" | "x = e\<lparr>val := v\<rparr>" by auto
    then show "unat (hash x AND (capacity t - 1)) = i \<and> key x \<in> KS \<and> cached_hash_ok t x"
    proof cases
      case 1
      with idx rest sub show ?thesis by blast
    next
      case 2
      from e idx rest sub
      have "unat (hash e AND (capacity t - 1)) = i \<and> key e \<in> KS \<and> cached_hash_ok t e"
        by blast
      with 2 show ?thesis by (simp add: cached_hash_ok_def split: ptr.splits)
    qed
  next
    show "distinct (map key (concat (bs[i := c'])))" using dist same by simp
  next
    from same have "length (map key (concat (bs[i := c']))) = length (map key (concat bs))"
      by (rule arg_cong)
    with sz show "size_ht t = of_nat (length (concat (bs[i := c'])))"
      by (simp only: length_map)
  qed
  then show "table_inv KS (t\<lparr>buckets := Ptr (bs[i := c'])\<rparr>)" by simp
  from mset_concat_update [OF i, of c']
  have "mset (concat (bs[i := c'])) + {#e#} + mset (bs ! i)
      = mset (concat bs) + (mset c' + {#e#})" by (simp add: ac_simps)
  also have "\<dots> = mset (concat bs) + {#e\<lparr>val := v\<rparr>#} + mset (bs ! i)"
    by (simp only: ms) (simp add: ac_simps)
  finally show "mset (concat (bs[i := c'])) + {#e#} = mset (concat bs) + {#e\<lparr>val := v\<rparr>#}"
    by simp
qed

lemma add_entry_replace:
  assumes inv: "table_inv KS t" and k: "k \<in> KS"
    and e: "e \<in> set (table_entries t)" "key e = k"
  shows "\<exists>t'. add_entry t k v malloc_ok = Some (True, t') \<and> table_inv KS t' \<and>
           size_ht t' = size_ht t \<and> capacity t' = capacity t \<and>
           threshold t' = threshold t \<and> load_factor t' = load_factor t \<and>
           hash_fn t' = hash_fn t \<and> key_cmp t' = key_cmp t \<and>
           key_len t' = key_len t \<and> hash_seed t' = hash_seed t \<and>
           mset (table_entries t') + {#e#} = mset (table_entries t) + {#e\<lparr>val := v\<rparr>#}"
proof -
  from inv obtain bs where bs: "buckets t = Ptr bs" and cap: "capacity t \<noteq> 0"
    and len: "length bs = unat (capacity t)"
    and dist: "distinct (map key (concat bs))"
    and inKS: "\<And>e. e \<in> set (concat bs) \<Longrightarrow> key e \<in> KS"
    and ok: "keys_ok (hash_fn t) (key_cmp t) (key_len t) (hash_seed t) KS"
    by (rule table_invE) blast
  have entries: "table_entries t = concat bs" by (simp add: table_entries_def bs)
  from e have e': "e \<in> set (concat bs)" by (simp only: entries)
  show ?thesis
  proof (cases "k = NULL")
    case True
    from cap len have 0: "0 < length bs" by (simp add: unat_gt_0)
    from entry_home(1) [OF inv bs e'] e(2) True have home: "e \<in> set (bs ! 0)" by simp
    from dist 0 have "distinct (map key (bs ! 0))" by (rule distinct_map_concat_nth)
    with home e(2) True obtain c' where c': "null_key_replace v (bs ! 0) = Some c'"
      and ms: "mset c' + {#e#} = mset (bs ! 0) + {#e\<lparr>val := v\<rparr>#}"
      using null_key_replace_present [of "bs ! 0" e v] by auto
    from c' have keys: "map key c' = map key (bs ! 0)"
      by (simp add: null_key_replace_fields)
    let ?t = "t\<lparr>buckets := Ptr (bs[0 := c'])\<rparr>"
    from True 0 c' have "add_entry t k v malloc_ok = Some (True, ?t)"
      by (simp add: add_entry_def add_null_key_def deref_def array_read_def bs)
    with table_inv_replace [OF inv bs 0 home keys ms] show ?thesis
      by (intro exI [of _ ?t]) (simp add: table_entries_def bs)
  next
    case False
    with ok k obtain h where h: "hash_fn t k (key_len t) (hash_seed t) = Some h"
      by (blast dest: keys_ok_hash)
    let ?i = "unat (h AND (capacity t - 1))"
    from cap len have i: "?i < length bs" by (rule mask_index_less')
    from entry_home(2) [OF inv bs e', of h] e(2) False h have home: "e \<in> set (bs ! ?i)"
      by simp
    from dist i have dc: "distinct (map key (bs ! ?i))" by (rule distinct_map_concat_nth)
    have cmp: "\<forall>e\<in>set (bs ! ?i). key_cmp t (key e) k = Some (key e = k)"
    proof
      fix x assume "x \<in> set (bs ! ?i)"
      with i have "x \<in> set (concat bs)" using nth_subset_concat [of ?i bs] by blast
      then have "key x \<in> KS" by (rule inKS)
      with ok k False show "key_cmp t (key x) k = Some (key x = k)"
        by (blast dest: keys_ok_cmp)
    qed
    from key_replace_present [of "bs ! ?i" "key_cmp t" k e v, OF cmp dc home e(2)]
    obtain c' where c': "key_replace (key_cmp t) k v (bs ! ?i) = Some (Some c')"
      and ms: "mset c' + {#e#} = mset (bs ! ?i) + {#e\<lparr>val := v\<rparr>#}"
      by blast
    from c' have keys: "map key c' = map key (bs ! ?i)"
      by (simp add: key_replace_fields)
    let ?t = "t\<lparr>buckets := Ptr (bs[?i := c'])\<rparr>"
    from False h i c' have "add_entry t k v malloc_ok = Some (True, ?t)"
      by (simp add: add_entry_def deref_def array_read_def bs Let_def)
    with table_inv_replace [OF inv bs i home keys ms] show ?thesis
      by (intro exI [of _ ?t]) (simp add: table_entries_def bs)
  qed
qed


subsection \<open>Moving the entries\<close>

lemma move_chain_mset:
  "move_chain d c dest = Some dest' \<Longrightarrow> mset (concat dest') = mset (concat dest) + mset c"
proof (induction c arbitrary: dest)
  case Nil
  then show ?case by simp
next
  case (Cons e c)
  let ?i = "unat (hash e AND (d - 1))"
  from Cons.prems have i: "?i < length dest"
    and rest: "move_chain d c (dest[?i := e # dest ! ?i]) = Some dest'"
    by (auto simp: Let_def split: if_splits)
  from Cons.IH [OF rest] mset_concat_cons [OF i, of e] show ?case by simp
qed

lemma move_buckets_mset:
  "move_buckets d src dest = Some dest' \<Longrightarrow>
   mset (concat dest') = mset (concat dest) + mset (concat src)"
proof (induction src arbitrary: dest)
  case Nil
  then show ?case by simp
next
  case (Cons c src)
  then obtain dest1 where 1: "move_chain d c dest = Some dest1"
    and 2: "move_buckets d src dest1 = Some dest'"
    by (auto split: option.splits)
  from move_chain_mset [OF 1] Cons.IH [OF 2] show ?case by (simp add: ac_simps)
qed

lemma chains_indexed_replicate [simp]: "chains_indexed d (replicate n [])"
  by (simp add: chains_indexed_def)

lemma chains_indexed_cons:
  fixes d :: "'w::len word"
  assumes "chains_indexed d bs"
  shows "chains_indexed d (bs[unat (hash e AND (d - 1)) := e # bs ! unat (hash e AND (d - 1))])"
  unfolding chains_indexed_def
proof (intro allI impI ballI)
  let ?i = "unat (hash e AND (d - 1))"
  fix j x assume j: "j < length (bs[?i := e # bs ! ?i])" and x: "x \<in> set (bs[?i := e # bs ! ?i] ! j)"
  show "unat (hash x AND (d - 1)) = j"
  proof (cases "j = ?i")
    case True
    with j x assms show ?thesis by (auto simp: chains_indexed_def)
  next
    case False
    with j x assms show ?thesis by (auto simp: chains_indexed_def)
  qed
qed

lemma move_chain_indexed:
  "move_chain d c dest = Some dest' \<Longrightarrow> chains_indexed d dest \<Longrightarrow> chains_indexed d dest'"
proof (induction c arbitrary: dest)
  case Nil
  then show ?case by simp
next
  case (Cons e c)
  let ?i = "unat (hash e AND (d - 1))"
  from Cons.prems have rest: "move_chain d c (dest[?i := e # dest ! ?i]) = Some dest'"
    by (auto simp: Let_def split: if_splits)
  from Cons.prems(2) have "chains_indexed d (dest[?i := e # dest ! ?i])"
    by (rule chains_indexed_cons)
  with rest show ?case by (rule Cons.IH)
qed

lemma move_buckets_indexed:
  "move_buckets d src dest = Some dest' \<Longrightarrow> chains_indexed d dest \<Longrightarrow> chains_indexed d dest'"
proof (induction src arbitrary: dest)
  case Nil
  then show ?case by simp
next
  case (Cons c src)
  then obtain dest1 where 1: "move_chain d c dest = Some dest1"
    and 2: "move_buckets d src dest1 = Some dest'"
    by (auto split: option.splits)
  from 1 Cons.prems(2) have "chains_indexed d dest1" by (rule move_chain_indexed)
  with 2 show ?case by (rule Cons.IH)
qed

lemma move_chain_total:
  "d \<noteq> 0 \<Longrightarrow> length dest = unat d \<Longrightarrow> \<exists>dest'. move_chain d c dest = Some dest'"
proof (induction c arbitrary: dest)
  case Nil
  then show ?case by simp
next
  case (Cons e c)
  let ?i = "unat (hash e AND (d - 1))"
  from Cons.prems have i: "?i < length dest" by (rule mask_index_less')
  from Cons.prems have "\<exists>dest'. move_chain d c (dest[?i := e # dest ! ?i]) = Some dest'"
    by (intro Cons.IH) simp_all
  with i show ?case by (simp add: Let_def)
qed

lemma move_buckets_total:
  "d \<noteq> 0 \<Longrightarrow> length dest = unat d \<Longrightarrow> \<exists>dest'. move_buckets d src dest = Some dest'"
proof (induction src arbitrary: dest)
  case Nil
  then show ?case by simp
next
  case (Cons c src)
  from Cons.prems obtain dest1 where 1: "move_chain d c dest = Some dest1"
    using move_chain_total by blast
  with Cons.prems have "length dest1 = unat d" by (simp add: move_chain_length)
  with Cons.prems(1) have "\<exists>dest'. move_buckets d src dest1 = Some dest'" by (rule Cons.IH)
  with 1 show ?case by simp
qed

lemma resize_refused:
  "capacity t = M \<or> \<not> calloc_ok \<Longrightarrow> resize M t nc calloc_ok = Some (False, t)"
  by (auto simp: resize_def)

lemma resize_grows:
  assumes inv: "table_inv KS t" and nc: "nc \<noteq> 0" and go: "capacity t \<noteq> M" "calloc_ok"
    and fits: "unat (capacity t) \<le> INT_MAX"
  shows "\<exists>t'. resize M t nc calloc_ok = Some (True, t') \<and> table_inv KS t' \<and>
           mset (table_entries t') = mset (table_entries t) \<and>
           size_ht t' = size_ht t \<and> capacity t' = nc \<and>
           threshold t' = threshold_of nc (load_factor t) \<and> load_factor t' = load_factor t \<and>
           hash_fn t' = hash_fn t \<and> key_cmp t' = key_cmp t \<and>
           key_len t' = key_len t \<and> hash_seed t' = hash_seed t"
proof -
  from inv obtain bs where bs: "buckets t = Ptr bs" and cap: "capacity t \<noteq> 0"
    and len: "length bs = unat (capacity t)"
    and sz: "size_ht t = of_nat (length (concat bs))"
    and dist: "distinct (map key (concat bs))"
    and inKS: "\<And>e. e \<in> set (concat bs) \<Longrightarrow> key e \<in> KS"
    and cached: "\<And>e. e \<in> set (concat bs) \<Longrightarrow> cached_hash_ok t e"
    and ok: "keys_ok (hash_fn t) (key_cmp t) (key_len t) (hash_seed t) KS"
    by (rule table_invE) blast
  from nc obtain new where new: "move_buckets nc bs (replicate (unat nc) []) = Some new"
    using move_buckets_total [of nc "replicate (unat nc) []" bs] by auto
  from move_buckets_mset [OF new] have ms: "mset (concat new) = mset (concat bs)" by simp
  from move_buckets_length [OF new] have ln: "length new = unat nc" by simp
  from new have ix: "chains_indexed nc new" by (rule move_buckets_indexed) simp
  from ms have st: "set (concat new) = set (concat bs)" by (rule mset_eq_setD)
  let ?t = "t\<lparr>buckets := Ptr new, capacity := nc, threshold := threshold_of nc (load_factor t)\<rparr>"
  have "resize M t nc calloc_ok = Some (True, ?t)"
    using go cap bs len new fits by (simp add: resize_def deref_def move_entries_def)
  moreover have "table_inv KS ?t"
  proof (rule table_invI [where bs = new])
    show "buckets ?t = Ptr new" by simp
    show "capacity ?t \<noteq> 0" using nc by simp
    show "length new = unat (capacity ?t)" using ln by simp
    show "size_ht ?t = of_nat (length (concat new))"
      using sz mset_eq_length [OF ms] by simp
    show "distinct (map key (concat new))"
      using dist distinct_map_mset_cong [OF ms] by blast
    show "keys_ok (hash_fn ?t) (key_cmp ?t) (key_len ?t) (hash_seed ?t) KS" using ok by simp
  next
    fix i e assume "i < length new" "e \<in> set (new ! i)"
    with ix show "unat (hash e AND (capacity ?t - 1)) = i" by (simp add: chains_indexed_def)
  next
    fix e assume "e \<in> set (concat new)"
    then have "e \<in> set (concat bs)" by (simp only: st)
    with inKS cached show "key e \<in> KS \<and> cached_hash_ok ?t e"
      by (simp add: cached_hash_ok_cong [of ?t t])
  qed
  moreover have "mset (table_entries ?t) = mset (table_entries t)"
    using ms by (simp add: table_entries_def bs)
  ultimately show ?thesis by (intro exI [of _ ?t]) simp
qed


subsection \<open>Insertion with the resize\<close>

lemma hashtable_add_below_threshold:
  "size_ht t < threshold t \<Longrightarrow> hashtable_add M t k v calloc_ok malloc_ok = add_entry t k v malloc_ok"
  by (simp add: hashtable_add_def not_le [symmetric])

lemma hashtable_add_at_threshold:
  "threshold t \<le> size_ht t \<Longrightarrow> resize M t (push_bit 1 (capacity t)) calloc_ok = Some (b, t1) \<Longrightarrow>
   hashtable_add M t k v calloc_ok malloc_ok = add_entry t1 k v malloc_ok"
  by (simp add: hashtable_add_def)

lemma unat_word_succ:
  fixes a b :: "'w::len word"
  assumes "a < b"
  shows "unat (a + 1) = Suc (unat a)"
proof -
  from assms have "Suc (unat a) \<le> unat b" by (simp add: word_less_nat_alt)
  also have "unat b < 2 ^ LENGTH('w)" by (rule unsigned_less)
  finally have "unat a + unat (1 :: 'w word) < 2 ^ LENGTH('w)" by simp
  then have "unat (a + 1) = unat a + unat (1 :: 'w word)"
    by (rule unat_add_lem [THEN iffD1])
  then show ?thesis by simp
qed

lemma mappings_add_mset:
  "mset (table_entries t') = add_mset e (mset (table_entries t)) \<Longrightarrow>
   mappings t' = insert (key e, val e) (mappings t)"
proof -
  assume "mset (table_entries t') = add_mset e (mset (table_entries t))"
  then have "set_mset (mset (table_entries t')) = set_mset (add_mset e (mset (table_entries t)))"
    by simp
  then have "set (table_entries t') = insert e (set (table_entries t))" by simp
  then show ?thesis by (simp add: mappings_def)
qed

lemma mappings_mset_eq:
  "mset (table_entries t') = mset (table_entries t) \<Longrightarrow> mappings t' = mappings t"
proof -
  assume "mset (table_entries t') = mset (table_entries t)"
  then have "set (table_entries t') = set (table_entries t)" by (rule mset_eq_setD)
  then show ?thesis by (simp add: mappings_def)
qed

lemma keys_of_mappings: "key ` set (table_entries t) = fst ` mappings t"
  by (simp add: mappings_def image_image)

lemma insert_all_below_threshold:
  assumes "table_inv KS t" and "distinct (map fst kvs)" and "fst ` set kvs \<subseteq> KS"
    and "fst ` set kvs \<inter> fst ` mappings t = {}"
    and "unat (size_ht t) + length kvs \<le> unat (threshold t)"
  shows "\<exists>t'. insert_all M t kvs = Some t' \<and> table_inv KS t' \<and>
           capacity t' = capacity t \<and> threshold t' = threshold t \<and>
           load_factor t' = load_factor t \<and>
           unat (size_ht t') = unat (size_ht t) + length kvs \<and>
           mappings t' = mappings t \<union> set kvs"
  using assms
proof (induction kvs arbitrary: t)
  case Nil
  then show ?case by simp
next
  case (Cons kv kvs)
  obtain k v where kv: "kv = (k, v)" by (cases kv)
  from Cons.prems(5) have lt: "size_ht t < threshold t"
    by (simp add: word_less_nat_alt)
  from Cons.prems(3,4) kv have k: "k \<in> KS" and absent: "k \<notin> key ` set (table_entries t)"
    by (auto simp: keys_of_mappings)
  from add_entry_new [OF Cons.prems(1) k absent, of v]
  obtain t1 e where add: "add_entry t k v True = Some (True, t1)" and inv1: "table_inv KS t1"
    and sz1: "size_ht t1 = size_ht t + 1" and cap1: "capacity t1 = capacity t"
    and thr1: "threshold t1 = threshold t" and lf1: "load_factor t1 = load_factor t"
    and e: "key e = k" "val e = v"
    and ms: "mset (table_entries t1) = add_mset e (mset (table_entries t))"
    by blast
  from ms e have map1: "mappings t1 = insert (k, v) (mappings t)"
    by (simp add: mappings_add_mset)
  from lt have usz1: "unat (size_ht t1) = Suc (unat (size_ht t))"
    by (simp add: sz1 unat_word_succ)
  have "\<exists>t'. insert_all M t1 kvs = Some t' \<and> table_inv KS t' \<and>
           capacity t' = capacity t1 \<and> threshold t' = threshold t1 \<and>
           load_factor t' = load_factor t1 \<and>
           unat (size_ht t') = unat (size_ht t1) + length kvs \<and>
           mappings t' = mappings t1 \<union> set kvs"
  proof (rule Cons.IH [OF inv1])
    show "distinct (map fst kvs)" using Cons.prems(2) by simp
    show "fst ` set kvs \<subseteq> KS" using Cons.prems(3) by simp
    show "fst ` set kvs \<inter> fst ` mappings t1 = {}"
      using Cons.prems(2,4) kv by (auto simp: map1)
    show "unat (size_ht t1) + length kvs \<le> unat (threshold t1)"
      using Cons.prems(5) by (simp add: usz1 thr1)
  qed
  then obtain t' where "insert_all M t1 kvs = Some t'" "table_inv KS t'"
    "capacity t' = capacity t1" "threshold t' = threshold t1" "load_factor t' = load_factor t1"
    "unat (size_ht t') = unat (size_ht t1) + length kvs" "mappings t' = mappings t1 \<union> set kvs"
    by blast
  moreover from lt add have "hashtable_add M t k v True True = Some (True, t1)"
    by (simp add: hashtable_add_below_threshold)
  ultimately show ?case
    by (intro exI [of _ t']) (simp add: kv cap1 thr1 lf1 usz1 map1)
qed

lemma get_of_mapping:
  assumes "table_inv KS t" and "(k, v) \<in> mappings t"
  shows "hashtable_get t k = Some v"
proof -
  from assms(2) obtain e where e: "e \<in> set (table_entries t)" "key e = k" "val e = v"
    by (auto simp: mappings_def)
  from assms(1) have dist: "distinct (map key (table_entries t))"
    and inKS: "key e \<in> KS"
    using e(1) by (simp_all add: table_inv_def)
  from dist e(1) have "lookup_entries (table_entries t) (key e) = val e"
    by (rule lookup_entries_present)
  with hashtable_get_correct [OF assms(1) inKS] e show ?thesis by simp
qed


subsection \<open>Small numbers as \<^verbatim>\<open>size_t\<close>\<close>

lemma take_bit_small:
  assumes "32 \<le> LENGTH('w::len)" and "numeral n < (2 :: nat) ^ 32"
  shows "take_bit LENGTH('w) (numeral n :: nat) = numeral n"
proof -
  have "(2 :: nat) ^ 32 \<le> 2 ^ LENGTH('w)"
    using assms(1) by (intro power_increasing) simp_all
  with assms(2) have "(numeral n :: nat) < 2 ^ LENGTH('w)" by (rule less_le_trans)
  then show ?thesis by (rule take_bit_nat_eq_self)
qed

lemma unat_small:
  assumes "32 \<le> LENGTH('w::len)" and "numeral n < (2 :: nat) ^ 32"
  shows "unat (numeral n :: 'w word) = numeral n"
  using take_bit_small [OF assms] by simp

lemma round_pow_two_16:
  fixes M :: "'w::len word"
  assumes "32 \<le> LENGTH('w)" and "16 < M"
  shows "round_pow_two M 16 = 16"
proof -
  have u15: "unat (15 :: 'w word) = 15" using assms(1) by (intro unat_small) simp_all
  have u16: "unat (16 :: 'w word) = 16" using assms(1) by (intro unat_small) simp_all
  have "smear (15 :: 'w word) = mask 4"
    by (rule smear_eq_mask) (simp_all only: u15, simp_all)
  then have "smear (15 :: 'w word) = 15" by (simp add: mask_eq_decr_exp)
  moreover have "(16 :: 'w word) \<noteq> 0" using u16 by (metis unat_0 zero_neq_numeral)
  moreover have "\<not> M \<le> 16" using assms(2) by simp
  ultimately show ?thesis by (simp add: round_pow_two_smear)
qed

lemma threshold_16:
  "32 \<le> LENGTH('w::len) \<Longrightarrow> threshold_of (16 :: 'w word) (3 / 4) = 12"
  by (simp add: threshold_of_def take_bit_small)

lemma threshold_32:
  "32 \<le> LENGTH('w::len) \<Longrightarrow> threshold_of (32 :: 'w word) (3 / 4) = 24"
  by (simp add: threshold_of_def take_bit_small)

lemma new_conf_inv:
  fixes M :: "'w::len word"
  assumes "keys_ok (conf_hash conf) (conf_key_compare conf) (conf_key_length conf)
             (conf_hash_seed conf) KS"
    and "round_pow_two M (conf_initial_capacity conf) \<noteq> 0"
    and "hashtable_new_conf M conf True True = Ptr t"
  shows "table_inv KS t" and "table_entries t = []"
proof -
  let ?c = "round_pow_two M (conf_initial_capacity conf)"
  from assms(3) have t: "buckets t = Ptr (replicate (unat ?c) [])" "capacity t = ?c"
    "size_ht t = 0" "hash_fn t = conf_hash conf" "key_cmp t = conf_key_compare conf"
    "key_len t = conf_key_length conf" "hash_seed t = conf_hash_seed conf"
    by (auto simp: hashtable_new_conf_def Let_def)
  show "table_inv KS t"
    by (rule table_invI [where bs = "replicate (unat ?c) []"]) (use assms(1,2) t in simp_all)
  show "table_entries t = []" by (simp add: table_entries_def t)
qed


text \<open>
  Growth where the strategies are good on the keys. A table is made with the initial
  capacity 16 and the load factor 0.75, and thirteen mappings with distinct keys are
  inserted, every allocation succeeding (\<open>MAX_POW_TWO\<close> is above 16, \<^verbatim>\<open>size_t\<close> has 32
  bits or more, and the strategies are good on the thirteen keys, which the string
  strategies are not when the \<^verbatim>\<open>NULL\<close> key is among them). The threshold is 12. After
  each of the first twelve insertions the capacity is 16. The thirteenth insertion
  finds \<open>size \<ge> threshold\<close> and resizes first, to the capacity 32, and then adds its
  entry; afterwards the lookup of each of the thirteen keys returns the value inserted
  with it.
\<close>

lemma growth_at_thirteenth_key:
  fixes M :: "'w::len word" and conf :: "('k, 'w) HashTableConf"
    and kvs :: "('k ptr \<times> 'v ptr) list" and kv :: "'k ptr \<times> 'v ptr"
  assumes len: "32 \<le> LENGTH('w)" and M: "16 < M"
    and conf: "conf_initial_capacity conf = 16" "conf_load_factor conf = 3 / 4"
    and twelve: "length kvs = 12"
    and dist: "distinct (map fst (kvs @ [kv]))"
    and ok: "keys_ok (conf_hash conf) (conf_key_compare conf) (conf_key_length conf)
               (conf_hash_seed conf) (fst ` set (kvs @ [kv]))"
  shows "\<exists>t0 t12 t' t13.
           hashtable_new_conf M conf True True = Ptr t0 \<and>
           capacity t0 = 16 \<and> threshold t0 = 12 \<and>
           (\<forall>n\<le>12. \<exists>tn. insert_all M t0 (take n kvs) = Some tn \<and> capacity tn = 16) \<and>
           insert_all M t0 kvs = Some t12 \<and>
           resize M t12 (push_bit 1 (capacity t12)) True = Some (True, t') \<and> capacity t' = 32 \<and>
           add_entry t' (fst kv) (snd kv) True = Some (True, t13) \<and>
           hashtable_add M t12 (fst kv) (snd kv) True True = Some (True, t13) \<and>
           capacity t13 = 32 \<and>
           (\<forall>(k, v)\<in>set (kvs @ [kv]). hashtable_get t13 k = Some v)"
proof -
  let ?KS = "fst ` set (kvs @ [kv])"
  have u12: "unat (12 :: 'w word) = 12" and u16: "unat (16 :: 'w word) = 16"
    and u32: "unat (32 :: 'w word) = 32"
    using len by (simp_all add: take_bit_small)
  have n32: "(32 :: 'w word) \<noteq> 0" using u32 by (metis unat_0 zero_neq_numeral)
  have n16: "(16 :: 'w word) \<noteq> 0" using u16 by (metis unat_0 zero_neq_numeral)
  have r16: "round_pow_two M 16 = 16" using len M by (rule round_pow_two_16)
  obtain t0 :: "('k, 'v, 'w) HashTable" where t0: "hashtable_new_conf M conf True True = Ptr t0"
    by (simp add: hashtable_new_conf_def Let_def)
  then have f0: "capacity t0 = 16" "threshold t0 = 12" "size_ht t0 = 0"
    "load_factor t0 = 3 / 4"
    using conf r16 len by (auto simp: hashtable_new_conf_def Let_def threshold_16)
  have nz: "round_pow_two M (conf_initial_capacity conf) \<noteq> 0"
    unfolding conf r16 by (rule n16)
  from ok nz t0 have inv0: "table_inv ?KS t0" and e0: "table_entries t0 = []"
    by (rule new_conf_inv)+
  from e0 have m0: "mappings t0 = {}" by (simp add: mappings_def)
  have step: "\<exists>tn. insert_all M t0 (take n kvs) = Some tn \<and> table_inv ?KS tn \<and>
      capacity tn = 16 \<and> threshold tn = 12 \<and> load_factor tn = 3 / 4 \<and>
      unat (size_ht tn) = n \<and> mappings tn = set (take n kvs)" if n: "n \<le> 12" for n
  proof -
    have "\<exists>t'. insert_all M t0 (take n kvs) = Some t' \<and> table_inv ?KS t' \<and>
           capacity t' = capacity t0 \<and> threshold t' = threshold t0 \<and>
           load_factor t' = load_factor t0 \<and>
           unat (size_ht t') = unat (size_ht t0) + length (take n kvs) \<and>
           mappings t' = mappings t0 \<union> set (take n kvs)"
      using inv0
    proof (rule insert_all_below_threshold)
      show "distinct (map fst (take n kvs))"
        using dist by (simp add: distinct_take take_map [symmetric] del: take_map)
      show "fst ` set (take n kvs) \<subseteq> ?KS"
        using set_take_subset [of n kvs] by auto
      show "fst ` set (take n kvs) \<inter> fst ` mappings t0 = {}" by (simp add: m0)
      show "unat (size_ht t0) + length (take n kvs) \<le> unat (threshold t0)"
        using n twelve len by (simp add: f0 take_bit_small)
    qed
    with n twelve show ?thesis by (simp add: f0 m0)
  qed
  from step [of 12] twelve obtain t12 where t12: "insert_all M t0 kvs = Some t12"
    and inv12: "table_inv ?KS t12" and f12: "capacity t12 = 16" "threshold t12 = 12"
    "load_factor t12 = 3 / 4" and sz12: "unat (size_ht t12) = 12"
    and m12: "mappings t12 = set kvs"
    by auto
  have full: "threshold t12 \<le> size_ht t12"
    using len by (simp add: word_le_nat_alt f12 sz12 take_bit_small)
  have "\<exists>t'. resize M t12 (push_bit 1 (capacity t12)) True = Some (True, t') \<and> table_inv ?KS t' \<and>
           mset (table_entries t') = mset (table_entries t12) \<and>
           size_ht t' = size_ht t12 \<and> capacity t' = push_bit 1 (capacity t12) \<and>
           threshold t' = threshold_of (push_bit 1 (capacity t12)) (load_factor t12) \<and>
           load_factor t' = load_factor t12 \<and>
           hash_fn t' = hash_fn t12 \<and> key_cmp t' = key_cmp t12 \<and>
           key_len t' = key_len t12 \<and> hash_seed t' = hash_seed t12"
    using inv12
  proof (rule resize_grows)
    show "push_bit 1 (capacity t12) \<noteq> 0" using n32 by (simp add: f12)
    show "capacity t12 \<noteq> M" using M by (auto simp: f12)
    show True ..
    show "unat (capacity t12) \<le> INT_MAX" unfolding f12 u16 by (simp add: INT_MAX_def)
  qed
  then obtain t' where rs: "resize M t12 (push_bit 1 (capacity t12)) True = Some (True, t')"
    and inv': "table_inv ?KS t'" and ms': "mset (table_entries t') = mset (table_entries t12)"
    and cap': "capacity t' = 32"
    by (auto simp: f12)
  from ms' have m': "mappings t' = set kvs" by (simp add: mappings_mset_eq m12)
  obtain k v where kv: "kv = (k, v)" by (cases kv)
  have "k \<in> ?KS" by (simp add: kv)
  moreover have "k \<notin> key ` set (table_entries t')"
    using dist by (simp add: keys_of_mappings m' kv)
  ultimately obtain t13 e where add: "add_entry t' k v True = Some (True, t13)"
    and inv13: "table_inv ?KS t13" and cap13: "capacity t13 = capacity t'"
    and e: "key e = k" "val e = v"
    and ms13: "mset (table_entries t13) = add_mset e (mset (table_entries t'))"
    using add_entry_new [OF inv', of k v] by blast
  from ms13 e have m13: "mappings t13 = set (kvs @ [kv])"
    by (simp add: mappings_add_mset m' kv)
  from full rs add have add13: "hashtable_add M t12 (fst kv) (snd kv) True True = Some (True, t13)"
    by (simp add: hashtable_add_at_threshold kv)
  have "\<forall>(k, v)\<in>set (kvs @ [kv]). hashtable_get t13 k = Some v"
    using inv13 by (auto simp only: m13 [symmetric] intro: get_of_mapping)
  moreover have "\<forall>n\<le>12. \<exists>tn. insert_all M t0 (take n kvs) = Some tn \<and> capacity tn = 16"
    using step by blast
  moreover have "capacity t13 = 32" using cap13 cap' by simp
  moreover have "add_entry t' (fst kv) (snd kv) True = Some (True, t13)"
    using add by (simp add: kv)
  ultimately show ?thesis
    using t0 f0(1,2) t12 rs cap' add13
    by (intro exI [of _ t0] exI [of _ t12] exI [of _ t'] exI [of _ t13] conjI)
qed


subsection \<open>The string strategies on ordinary strings\<close>

lemma of_char_eq_0_iff: "of_char c = (0 :: nat) \<longleftrightarrow> c = CHR 0x00"
proof -
  have "of_char c = (of_char (CHR 0x00) :: nat) \<longleftrightarrow> c = CHR 0x00"
    by (rule of_char_eq_iff)
  then show ?thesis by simp
qed

lemma hash_string_loop_total:
  "CHR 0x00 \<notin> set s \<Longrightarrow> \<exists>x. hash_string_loop h (s @ [CHR 0x00]) = Some x"
proof (induction s arbitrary: h)
  case Nil
  then show ?case by simp
next
  case (Cons c s)
  then have c: "of_char c \<noteq> (0 :: nat)" by (auto simp: of_char_eq_0_iff)
  obtain d r where dr: "s @ [CHR 0x00] = d # r" by (cases s) auto
  from Cons have "\<exists>x. hash_string_loop ((push_bit 5 h + h) XOR char_to_size_t d) (s @ [CHR 0x00]) = Some x"
    by simp
  with c dr show ?case by simp
qed

lemma c_str_no_zero: "CHR 0x00 \<notin> set s \<Longrightarrow> c_str s = s"
  by (auto simp: c_str_def of_char_eq_0_iff)

lemma keys_ok_string:
  assumes "\<forall>k\<in>KS. \<exists>s. k = Ptr s \<and> CHR 0x00 \<notin> set s"
  shows "keys_ok hashtable_hash_string hashtable_string_key_cmp len seed KS"
  unfolding keys_ok_def
proof (intro conjI ballI impI)
  fix a b assume "a \<in> KS" "b \<in> KS"
  with assms obtain s r where "a = Ptr s" "CHR 0x00 \<notin> set s" "b = Ptr r" "CHR 0x00 \<notin> set r"
    by blast
  then show "hashtable_string_key_cmp a b = Some (a = b)"
    and "hashtable_string_key_cmp b a = Some (b = a)"
    by (auto simp: hashtable_string_key_cmp_def c_str_no_zero)
next
  fix k assume "k \<in> KS"
  with assms obtain s where "k = Ptr s" "CHR 0x00 \<notin> set s" by blast
  then show "hashtable_hash_string k len seed \<noteq> None"
    using hash_string_loop_total [of s 5381] by (auto simp: hashtable_hash_string_def)
qed

text \<open>The pointer comparator accepts every key, the \<^verbatim>\<open>NULL\<close> key too.\<close>

lemma keys_ok_pointer:
  "\<forall>k\<in>KS. k \<noteq> NULL \<longrightarrow> h k len seed \<noteq> None \<Longrightarrow>
   keys_ok h hashtable_pointer_key_cmp len seed KS"
  by (simp add: keys_ok_def hashtable_pointer_key_cmp_def)

text \<open>
  The default configuration (string keys) with the thirteen keys \<^verbatim>\<open>"a"\<close>, \<dots>, \<^verbatim>\<open>"m"\<close>
  on a 32-bit \<^verbatim>\<open>size_t\<close>.
\<close>

lemma growth_at_thirteenth_key_example:
  "let kvs = [(Ptr ''a'', Ptr 1), (Ptr ''b'', Ptr 2), (Ptr ''c'', Ptr 3), (Ptr ''d'', Ptr 4),
              (Ptr ''e'', Ptr 5), (Ptr ''f'', Ptr 6), (Ptr ''g'', Ptr 7), (Ptr ''h'', Ptr 8),
              (Ptr ''i'', Ptr 9), (Ptr ''j'', Ptr 10), (Ptr ''k'', Ptr 11), (Ptr ''l'', Ptr 12)];
       kv = (Ptr ''m'', Ptr (13 :: nat));
       M = (2 ^ 31 :: 32 word)
   in keys_ok hashtable_hash_string hashtable_string_key_cmp (- 1) 0 (fst ` set (kvs @ [kv])) \<and>
      (\<exists>t0 t12 t' t13.
         hashtable_new_conf M hashtable_conf_init True True = Ptr t0 \<and>
         capacity t0 = 16 \<and> threshold t0 = 12 \<and>
         (\<forall>n\<le>12. \<exists>tn. insert_all M t0 (take n kvs) = Some tn \<and> capacity tn = 16) \<and>
         insert_all M t0 kvs = Some t12 \<and>
         resize M t12 (push_bit 1 (capacity t12)) True = Some (True, t') \<and> capacity t' = 32 \<and>
         add_entry t' (fst kv) (snd kv) True = Some (True, t13) \<and>
         hashtable_add M t12 (fst kv) (snd kv) True True = Some (True, t13) \<and>
         capacity t13 = 32 \<and>
         (\<forall>(k, v)\<in>set (kvs @ [kv]). hashtable_get t13 k = Some v))"
  unfolding Let_def
proof (intro conjI)
  let ?kvs = "[(Ptr ''a'', Ptr 1), (Ptr ''b'', Ptr 2), (Ptr ''c'', Ptr 3), (Ptr ''d'', Ptr 4),
               (Ptr ''e'', Ptr 5), (Ptr ''f'', Ptr 6), (Ptr ''g'', Ptr 7), (Ptr ''h'', Ptr 8),
               (Ptr ''i'', Ptr 9), (Ptr ''j'', Ptr 10), (Ptr ''k'', Ptr 11), (Ptr ''l'', Ptr (12 :: nat))]"
  let ?kv = "(Ptr ''m'', Ptr (13 :: nat))"
  let ?KS = "fst ` set (?kvs @ [?kv])"
  show ok: "keys_ok hashtable_hash_string hashtable_string_key_cmp (- 1) 0 ?KS"
    by (rule keys_ok_string) simp
  show "\<exists>t0 t12 t' t13.
         hashtable_new_conf (2 ^ 31 :: 32 word) hashtable_conf_init True True = Ptr t0 \<and>
         capacity t0 = 16 \<and> threshold t0 = 12 \<and>
         (\<forall>n\<le>12. \<exists>tn. insert_all (2 ^ 31) t0 (take n ?kvs) = Some tn \<and> capacity tn = 16) \<and>
         insert_all (2 ^ 31) t0 ?kvs = Some t12 \<and>
         resize (2 ^ 31) t12 (push_bit 1 (capacity t12)) True = Some (True, t') \<and> capacity t' = 32 \<and>
         add_entry t' (fst ?kv) (snd ?kv) True = Some (True, t13) \<and>
         hashtable_add (2 ^ 31) t12 (fst ?kv) (snd ?kv) True True = Some (True, t13) \<and>
         capacity t13 = 32 \<and>
         (\<forall>(k, v)\<in>set (?kvs @ [?kv]). hashtable_get t13 k = Some v)"
  proof (rule growth_at_thirteenth_key)
    show "32 \<le> LENGTH(32)" by simp
    show "(16 :: 32 word) < 2 ^ 31" by simp
    show "conf_initial_capacity (hashtable_conf_init :: (string, 32) HashTableConf) = 16"
      by (simp add: hashtable_conf_init_def)
    show "conf_load_factor (hashtable_conf_init :: (string, 32) HashTableConf) = 3 / 4"
      by (simp add: hashtable_conf_init_def)
    show "length ?kvs = 12" by simp
    show "distinct (map fst (?kvs @ [?kv]))" by simp
    show "keys_ok (conf_hash (hashtable_conf_init :: (string, 32) HashTableConf))
            (conf_key_compare (hashtable_conf_init :: (string, 32) HashTableConf))
            (conf_key_length (hashtable_conf_init :: (string, 32) HashTableConf))
            (conf_hash_seed (hashtable_conf_init :: (string, 32) HashTableConf)) ?KS"
      using ok by (simp add: hashtable_conf_init_def)
  qed
qed

section \<open>The capacity and the place of the entries\<close>

lemma entries_indexed_Ptr:
  "buckets t = Ptr bs \<Longrightarrow> entries_indexed t = chains_indexed (capacity t) bs"
  by (simp add: entries_indexed_def chains_indexed_def)

lemma entries_indexed_NULL: "buckets t = NULL \<Longrightarrow> entries_indexed t"
  by (simp add: entries_indexed_def)

lemma chains_indexed_update:
  fixes d :: "'w::len word"
  assumes "chains_indexed d bs" and "\<forall>e\<in>set c'. unat (hash e AND (d - 1)) = i"
  shows "chains_indexed d (bs[i := c'])"
  unfolding chains_indexed_def
proof (intro allI impI ballI)
  fix j x assume j: "j < length (bs[i := c'])" and x: "x \<in> set (bs[i := c'] ! j)"
  show "unat (hash x AND (d - 1)) = j"
  proof (cases "j = i")
    case True
    with j x assms(2) show ?thesis by simp
  next
    case False
    with j x assms(1) show ?thesis by (simp add: chains_indexed_def)
  qed
qed

lemma chains_indexed_nth:
  "chains_indexed d bs \<Longrightarrow> i < length bs \<Longrightarrow> e \<in> set (bs ! i) \<Longrightarrow> unat (hash e AND (d - 1)) = i"
  by (simp add: chains_indexed_def)

lemma chains_indexed_same_hashes:
  assumes "chains_indexed d bs" and "i < length bs" and "map hash c' = map hash (bs ! i)"
  shows "chains_indexed d (bs[i := c'])"
  using assms(1)
proof (rule chains_indexed_update)
  show "\<forall>e\<in>set c'. unat (hash e AND (d - 1)) = i"
  proof
    fix e assume "e \<in> set c'"
    then have "hash e \<in> set (map hash c')" by simp
    then have "hash e \<in> set (map hash (bs ! i))" by (simp only: assms(3))
    then obtain x where "x \<in> set (bs ! i)" "hash x = hash e" by auto
    with chains_indexed_nth [OF assms(1,2), of x] show "unat (hash e AND (d - 1)) = i" by simp
  qed
qed

lemma chains_indexed_subset:
  assumes "chains_indexed d bs" and "i < length bs" and "set c' \<subseteq> set (bs ! i)"
  shows "chains_indexed d (bs[i := c'])"
  using assms(1)
proof (rule chains_indexed_update)
  show "\<forall>e\<in>set c'. unat (hash e AND (d - 1)) = i"
    using assms chains_indexed_nth by blast
qed

lemma key_unlink_subset:
  "key_unlink cmp k c = Some (Some (v, c')) \<Longrightarrow> set c' \<subseteq> set c"
  by (induction c arbitrary: c') (auto split: option.splits bool.splits)

lemma null_key_unlink_subset:
  "null_key_unlink c = Some (v, c') \<Longrightarrow> set c' \<subseteq> set c"
  by (induction c arbitrary: c') (auto split: if_splits)

lemma new_conf_indexed:
  "hashtable_new_conf M conf table_ok buckets_ok = Ptr t \<Longrightarrow> entries_indexed t"
  by (auto simp: hashtable_new_conf_def entries_indexed_def Let_def split: if_splits)

lemma resize_indexed:
  assumes "resize M t nc calloc_ok = Some (b, t')" and "entries_indexed t"
  shows "entries_indexed t'"
proof (cases b)
  case False
  with assms show ?thesis
    by (auto simp: resize_def split: if_splits option.splits)
next
  case True
  with assms(1) obtain old new where
    new: "move_entries old (replicate (unat nc) []) (capacity t) nc = Some new"
    and t': "t' = t\<lparr>buckets := Ptr new, capacity := nc, threshold := threshold_of nc (load_factor t)\<rparr>"
    by (auto simp: resize_def split: if_splits option.splits)
  from new have "move_buckets nc (take (unat (capacity t)) old) (replicate (unat nc) []) = Some new"
    by (simp add: move_entries_def split: if_splits)
  then have "chains_indexed nc new" by (rule move_buckets_indexed) simp
  then show ?thesis by (simp add: t' entries_indexed_Ptr)
qed

lemma add_null_key_indexed:
  assumes "add_null_key t v malloc_ok = Some (b, t')" and "entries_indexed t"
  shows "entries_indexed t'"
proof -
  from assms(1) obtain bs where bs: "buckets t = Ptr bs" and len: "0 < length bs"
    by (cases "buckets t") (auto simp: add_null_key_def deref_def array_read_def split: if_splits)
  from assms(2) bs have ix: "chains_indexed (capacity t) bs" by (simp add: entries_indexed_Ptr)
  show ?thesis
  proof (cases "null_key_replace v (bs ! 0)")
    case None
    have "chains_indexed (capacity t) (bs[0 := \<lparr>key = NULL, val = v, hash = 0\<rparr> # bs ! 0])"
      using ix by (rule chains_indexed_update) (use ix len in \<open>auto simp: chains_indexed_def\<close>)
    with None assms bs len show ?thesis
      by (auto simp: add_null_key_def deref_def array_read_def entries_indexed_Ptr split: if_splits)
  next
    case (Some c')
    then have "map hash c' = map hash (bs ! 0)" by (simp add: null_key_replace_fields)
    with ix len have "chains_indexed (capacity t) (bs[0 := c'])"
      by (rule chains_indexed_same_hashes)
    with Some assms bs len show ?thesis
      by (auto simp: add_null_key_def deref_def array_read_def entries_indexed_Ptr)
  qed
qed

lemma add_entry_indexed:
  assumes "add_entry t k v malloc_ok = Some (b, t')" and "entries_indexed t"
  shows "entries_indexed t'"
proof (cases "k = NULL")
  case True
  with assms show ?thesis by (auto simp: add_entry_def intro: add_null_key_indexed)
next
  case False
  with assms(1) obtain h bs r where
    h: "hash_fn t k (key_len t) (hash_seed t) = Some h"
    and bs: "buckets t = Ptr bs"
    and i: "unat (h AND (capacity t - 1)) < length bs"
    and r: "key_replace (key_cmp t) k v (bs ! unat (h AND (capacity t - 1))) = Some r"
    by (cases "buckets t")
       (auto simp: add_entry_def deref_def array_read_def Let_def split: option.splits if_splits)
  let ?i = "unat (h AND (capacity t - 1))"
  from assms(2) bs have ix: "chains_indexed (capacity t) bs" by (simp add: entries_indexed_Ptr)
  show ?thesis
  proof (cases r)
    case None
    have "chains_indexed (capacity t) (bs[?i := \<lparr>key = k, val = v, hash = h\<rparr> # bs ! ?i])"
      using ix by (rule chains_indexed_update) (use ix i in \<open>auto simp: chains_indexed_def\<close>)
    with None assms False h bs i r show ?thesis
      by (auto simp: add_entry_def deref_def array_read_def Let_def entries_indexed_Ptr
          split: if_splits)
  next
    case (Some c')
    with r have "map hash c' = map hash (bs ! ?i)" by (simp add: key_replace_fields)
    with ix i have "chains_indexed (capacity t) (bs[?i := c'])"
      by (rule chains_indexed_same_hashes)
    with Some assms False h bs i r show ?thesis
      by (auto simp: add_entry_def deref_def array_read_def Let_def entries_indexed_Ptr)
  qed
qed

lemma hashtable_add_split:
  assumes "hashtable_add M t k v calloc_ok malloc_ok = Some (b, t')"
  obtains "size_ht t < threshold t" "add_entry t k v malloc_ok = Some (b, t')"
  | b1 t1 where "threshold t \<le> size_ht t"
      "resize M t (push_bit 1 (capacity t)) calloc_ok = Some (b1, t1)"
      "add_entry t1 k v malloc_ok = Some (b, t')"
  using assms
  by (cases "threshold t \<le> size_ht t")
     (auto simp: hashtable_add_def not_le split: option.splits)

lemma hashtable_add_indexed:
  assumes "hashtable_add M t k v calloc_ok malloc_ok = Some (b, t')" and "entries_indexed t"
  shows "entries_indexed t'"
  using assms(1)
proof (cases rule: hashtable_add_split)
  case 1
  with assms(2) show ?thesis by (blast intro: add_entry_indexed)
next
  case (2 b1 t1)
  with assms(2) show ?thesis by (blast intro: add_entry_indexed resize_indexed)
qed

lemma remove_null_key_indexed:
  assumes "remove_null_key t = Some (v, t')" and "entries_indexed t"
  shows "entries_indexed t'"
proof -
  from assms(1) obtain bs where bs: "buckets t = Ptr bs" and len: "0 < length bs"
    by (cases "buckets t") (auto simp: remove_null_key_def deref_def array_read_def split: if_splits)
  from assms(2) bs have ix: "chains_indexed (capacity t) bs" by (simp add: entries_indexed_Ptr)
  show ?thesis
  proof (cases "null_key_unlink (bs ! 0)")
    case None
    with assms bs len show ?thesis
      by (auto simp: remove_null_key_def deref_def array_read_def)
  next
    case (Some r)
    obtain v' c' where r: "r = (v', c')" by (cases r)
    with Some have "set c' \<subseteq> set (bs ! 0)" by (simp add: null_key_unlink_subset)
    with ix len have "chains_indexed (capacity t) (bs[0 := c'])"
      by (rule chains_indexed_subset)
    with Some r assms bs len show ?thesis
      by (auto simp: remove_null_key_def deref_def array_read_def entries_indexed_Ptr)
  qed
qed

lemma hashtable_remove_indexed:
  assumes "hashtable_remove t k = Some (v, t')" and "entries_indexed t"
  shows "entries_indexed t'"
proof (cases "k = NULL")
  case True
  with assms show ?thesis
    by (auto simp: hashtable_remove_def intro: remove_null_key_indexed)
next
  case False
  with assms(1) obtain i bs r where
    bs: "buckets t = Ptr bs" and idx: "get_table_index t k = Some i"
    and i: "unat i < length bs"
    and r: "key_unlink (key_cmp t) k (bs ! unat i) = Some r"
    by (cases "buckets t")
       (auto simp: hashtable_remove_def deref_def array_read_def split: option.splits if_splits)
  from assms(2) bs have ix: "chains_indexed (capacity t) bs" by (simp add: entries_indexed_Ptr)
  show ?thesis
  proof (cases r)
    case None
    with assms False bs idx i r show ?thesis
      by (auto simp: hashtable_remove_def deref_def array_read_def)
  next
    case (Some p)
    obtain v' c' where p: "p = (v', c')" by (cases p)
    with r Some have "set c' \<subseteq> set (bs ! unat i)" by (simp add: key_unlink_subset)
    with ix i have "chains_indexed (capacity t) (bs[unat i := c'])"
      by (rule chains_indexed_subset)
    with Some p assms False bs idx i r show ?thesis
      by (auto simp: hashtable_remove_def deref_def array_read_def entries_indexed_Ptr)
  qed
qed

lemma chains_indexed_cleared:
  assumes "chains_indexed d bs"
  shows "chains_indexed d (replicate n [] @ drop n bs)"
  unfolding chains_indexed_def
proof (intro allI impI ballI)
  fix j x assume j: "j < length (replicate n [] @ drop n bs)"
    and x: "x \<in> set ((replicate n [] @ drop n bs) ! j)"
  from x have nj: "n \<le> j" by (cases "j < n") (auto simp: nth_append)
  with j x have "j < length bs" "x \<in> set (bs ! j)" by (auto simp: nth_append)
  with assms show "unat (hash x AND (d - 1)) = j" by (rule chains_indexed_nth)
qed

lemma hashtable_remove_all_indexed:
  assumes "hashtable_remove_all t = Some t'" and "entries_indexed t"
  shows "entries_indexed t'"
proof (cases "capacity t = 0")
  case True
  with assms show ?thesis by (simp add: hashtable_remove_all_def)
next
  case False
  with assms(1) obtain bs where bs: "buckets t = Ptr bs" and n: "unat (capacity t) \<le> length bs"
    by (cases "buckets t") (auto simp: hashtable_remove_all_def deref_def split: if_splits)
  from assms(2) bs have "chains_indexed (capacity t) bs" by (simp add: entries_indexed_Ptr)
  then have "chains_indexed (capacity t) (replicate (unat (capacity t)) [] @ drop (unat (capacity t)) bs)"
    by (rule chains_indexed_cleared)
  with False assms(1) bs n show ?thesis
    by (auto simp: hashtable_remove_all_def deref_def remove_all_loop_upt entries_indexed_Ptr
             split: if_splits)
qed

lemma reachable_indexed: "reachable M conf t \<Longrightarrow> entries_indexed t"
proof (induction rule: reachable.induct)
  case (created table_ok buckets_ok t)
  then show ?case by (rule new_conf_indexed)
next
  case (added t k v calloc_ok malloc_ok ok t')
  then show ?case by (blast intro: hashtable_add_indexed)
next
  case (removed t k v t')
  then show ?case by (blast intro: hashtable_remove_indexed)
next
  case (removed_all t t')
  then show ?case by (blast intro: hashtable_remove_all_indexed)
qed


subsection \<open>The capacity stays a power of two\<close>

lemma resize_capacity:
  "resize M t nc calloc_ok = Some (b, t') \<Longrightarrow>
   capacity t' = capacity t \<or> (capacity t \<noteq> M \<and> capacity t' = nc)"
  by (auto simp: resize_def split: if_splits option.splits)

lemma add_null_key_capacity:
  "add_null_key t v malloc_ok = Some (b, t') \<Longrightarrow> capacity t' = capacity t"
  by (auto simp: add_null_key_def split: if_splits option.splits)

lemma add_entry_capacity:
  "add_entry t k v malloc_ok = Some (b, t') \<Longrightarrow> capacity t' = capacity t"
  by (auto simp: add_entry_def Let_def add_null_key_capacity split: if_splits option.splits)

lemma hashtable_add_capacity:
  assumes "hashtable_add M t k v calloc_ok malloc_ok = Some (b, t')"
  shows "capacity t' = capacity t \<or> (capacity t \<noteq> M \<and> capacity t' = push_bit 1 (capacity t))"
  using assms
proof (cases rule: hashtable_add_split)
  case 1
  then show ?thesis by (simp add: add_entry_capacity)
next
  case (2 b1 t1)
  from resize_capacity [OF 2(2)] add_entry_capacity [OF 2(3)] show ?thesis by auto
qed

lemma hashtable_remove_capacity:
  "hashtable_remove t k = Some (v, t') \<Longrightarrow> capacity t' = capacity t"
  by (auto simp: hashtable_remove_def remove_null_key_def split: if_splits option.splits)

lemma hashtable_remove_all_capacity:
  "hashtable_remove_all t = Some t' \<Longrightarrow> capacity t' = capacity t"
  by (auto simp: hashtable_remove_all_def split: if_splits option.splits prod.splits)

lemma round_pow_two_spec:
  fixes M n :: "'w::len word"
  assumes M: "M = 2 ^ m" "m < LENGTH('w)" and small: "m \<le> 32 \<or> unat n \<le> 2 ^ 32"
  shows "if M \<le> n then round_pow_two M n = M
         else if n = 0 then round_pow_two M n = 2
         else \<exists>j\<le>m. round_pow_two M n = 2 ^ j \<and> unat n \<le> 2 ^ j \<and> (j = 0 \<or> 2 ^ (j - 1) < unat n)"
proof (cases "M \<le> n")
  case True
  then show ?thesis by (simp add: round_pow_two_def)
next
  case False
  show ?thesis
  proof (cases "n = 0")
    case True
    with False show ?thesis by (simp add: round_pow_two_def)
  next
    case n0: False
    then have "0 < n" by (simp add: word_gt_0)
    moreover from False have "n < M" by simp
    ultimately have "\<exists>j\<le>m. round_pow_two M n = 2 ^ j \<and> unat n \<le> 2 ^ j \<and>
        (j = 0 \<or> 2 ^ (j - 1) < unat n)"
      using M small by (intro round_pow_two_rounds)
    with False n0 show ?thesis by simp
  qed
qed

lemma round_pow_two_is_power:
  fixes M n :: "'w::len word"
  assumes M: "M = 2 ^ m" "0 < m" "m < LENGTH('w)" and small: "m \<le> 32 \<or> unat n \<le> 2 ^ 32"
  shows "\<exists>j\<le>m. round_pow_two M n = 2 ^ j"
proof -
  from round_pow_two_spec [OF M(1,3) small]
  consider "round_pow_two M n = M" | "round_pow_two M n = 2" | j where "j \<le> m" "round_pow_two M n = 2 ^ j"
    by (auto split: if_splits)
  then show ?thesis
  proof cases
    case 1
    with M(1) show ?thesis by (intro exI [of _ m]) simp
  next
    case 2
    with M(2) show ?thesis by (intro exI [of _ 1]) simp
  next
    case 3
    then show ?thesis by blast
  qed
qed

lemma reachable_capacity:
  fixes M :: "'w::len word"
  assumes M: "M = 2 ^ m" "0 < m" "m < LENGTH('w)"
    and small: "m \<le> 32 \<or> unat (conf_initial_capacity conf) \<le> 2 ^ 32"
    and "reachable M conf t"
  shows "\<exists>j\<le>m. capacity t = 2 ^ j"
  using assms(5)
proof (induction rule: reachable.induct)
  case (created table_ok buckets_ok t)
  then have "capacity t = round_pow_two M (conf_initial_capacity conf)"
    by (auto simp: hashtable_new_conf_def Let_def split: if_splits)
  with round_pow_two_is_power [OF M small] show ?case by simp
next
  case (added t k v calloc_ok malloc_ok ok t')
  then obtain j where j: "j \<le> m" "capacity t = 2 ^ j" by blast
  from hashtable_add_capacity [OF added.hyps(2)] show ?case
  proof
    assume "capacity t' = capacity t"
    with j show ?thesis by auto
  next
    assume grow: "capacity t \<noteq> M \<and> capacity t' = push_bit 1 (capacity t)"
    with j M(1) have "j \<noteq> m" by auto
    with j have "Suc j \<le> m" by simp
    moreover from grow j have "capacity t' = 2 ^ Suc j" by (simp add: push_bit_eq_mult)
    ultimately show ?thesis by blast
  qed
next
  case (removed t k v t')
  then show ?case by (simp add: hashtable_remove_capacity)
next
  case (removed_all t t')
  then show ?case by (simp add: hashtable_remove_all_capacity)
qed

text \<open>
  C5, as the code has it. \<open>MAX_POW_TWO\<close> is a power of two \<open>2 ^ m\<close> with \<open>m \<ge> 1\<close>, and
  either \<open>m \<le> 32\<close> or the hint is at most \<open>2 ^ 32\<close> (the five shifts of
  \<^verbatim>\<open>round_pow_two\<close> cover 32 bits). Then the capacity of every reachable table is a
  power of two (at least 1), every entry is in the chain whose index is
  \<open>hash & (capacity - 1)\<close>, and the capacity of a new table is the hint rounded up to
  the next power of two, except that the hint 0 gives 2 and a hint of \<open>MAX_POW_TWO\<close> or
  more gives \<open>MAX_POW_TWO\<close>; the hint 1 gives the capacity 1.
\<close>

theorem capacity_power_of_two:
  fixes M :: "'w::len word" and t :: "('k, 'v, 'w) HashTable"
  assumes "M = 2 ^ m" "0 < m" "m < LENGTH('w)"
    and "m \<le> 32 \<or> unat (conf_initial_capacity conf) \<le> 2 ^ 32"
    and "reachable M conf t"
  shows "(\<exists>j\<le>m. capacity t = 2 ^ j) \<and> entries_indexed t \<and>
         (let n = conf_initial_capacity conf; c = round_pow_two M n
          in map_ptr capacity
               (hashtable_new_conf M conf True buckets_ok :: ('k, 'v, 'w) HashTable ptr) = Ptr c \<and>
             (if M \<le> n then c = M
              else if n = 0 then c = 2
              else \<exists>j\<le>m. c = 2 ^ j \<and> unat n \<le> 2 ^ j \<and> (j = 0 \<or> 2 ^ (j - 1) < unat n)))"
proof -
  have "\<exists>j\<le>m. capacity t = 2 ^ j" using assms by (rule reachable_capacity)
  moreover have "entries_indexed t" using assms(5) by (rule reachable_indexed)
  moreover have "map_ptr capacity
      (hashtable_new_conf M conf True buckets_ok :: ('k, 'v, 'w) HashTable ptr)
      = Ptr (round_pow_two M (conf_initial_capacity conf))"
    by (simp add: hashtable_new_conf_def Let_def)
  moreover note round_pow_two_spec [OF assms(1,3,4)]
  ultimately show ?thesis by (simp add: Let_def)
qed

text \<open>
  C5 as stated fails: with the hint 1 the capacity of the new table is 1, not 2 (the
  test \<^verbatim>\<open>n == 0\<close> catches the hint 0 only, and the shifts leave \<open>1 - 1 = 0\<close> as it
  is).
\<close>

theorem capacity_one_counterexample:
  "map_ptr capacity
     (hashtable_new_conf (2 ^ 31 :: 32 word) (hashtable_conf_init\<lparr>conf_initial_capacity := 1\<rparr>)
        True True) = Ptr 1"
  by (simp add: ht_defs Let_def word_le_nat_alt)


text \<open>
  A table made with the hint 17 on a 32-bit \<^verbatim>\<open>size_t\<close> with \<open>MAX_POW_TWO = 2 ^ 31\<close>, after
  one insertion: the capacity is 32.
\<close>

theorem capacity_power_of_two_witness:
  "(case hashtable_new_conf (2 ^ 31 :: 32 word) (hashtable_conf_init\<lparr>conf_initial_capacity := 17\<rparr>)
           True True of
      NULL \<Rightarrow> False
    | Ptr t0 \<Rightarrow>
        (case hashtable_add (2 ^ 31) t0 (Ptr ''a'') (Ptr (7 :: nat)) True True of
           Some (True, t1) \<Rightarrow>
             reachable (2 ^ 31) (hashtable_conf_init\<lparr>conf_initial_capacity := 17\<rparr>) t1 \<and>
             capacity t1 = 32 \<and> (\<exists>j\<le>31. capacity t1 = 2 ^ j) \<and> entries_indexed t1
         | _ \<Rightarrow> False))"
proof -
  let ?M = "2 ^ 31 :: 32 word"
  let ?conf = "hashtable_conf_init\<lparr>conf_initial_capacity := 17\<rparr> :: (string, 32) HashTableConf"
  obtain t0 :: "(string, nat, 32) HashTable" where t0: "hashtable_new_conf ?M ?conf True True = Ptr t0"
    by (simp add: hashtable_new_conf_def Let_def)
  then have r0: "reachable ?M ?conf t0" by (rule reachable.created)
  obtain t1 where t1: "hashtable_add ?M t0 (Ptr ''a'') (Ptr 7) True True = Some (True, t1)"
    using t0 by (auto simp: ht_defs Let_def word_le_nat_alt)
  from r0 t1 have r1: "reachable ?M ?conf t1" by (rule reachable.added)
  have cap: "capacity t1 = 32"
    using t0 t1 by (auto simp: ht_defs Let_def word_le_nat_alt)
  have "m \<le> 32 \<or> unat (conf_initial_capacity ?conf) \<le> 2 ^ 32" if "m = 31" for m :: nat
    using that by simp
  with capacity_power_of_two [of ?M 31 ?conf t1] r1
  have "(\<exists>j\<le>31. capacity t1 = 2 ^ j) \<and> entries_indexed t1" by simp
  with t0 t1 r1 cap show ?thesis by simp
qed

section \<open>A stored \<^verbatim>\<open>NULL\<close> key and the comparator\<close>

text \<open>
  C1. The table made by \<^verbatim>\<open>hashtable_new\<close> holds a mapping of the \<^verbatim>\<open>NULL\<close> key, whose
  entry is in chain 0. The key \<^verbatim>\<open>"ae"\<close> hashes to chain 0 too (its hash is 5860800),
  so \<^verbatim>\<open>hashtable_add(table, "ae", v1)\<close> calls \<^verbatim>\<open>key_cmp(replace->key, key)\<close> with the
  stored \<^verbatim>\<open>NULL\<close> key; the string comparator hands it to \<^verbatim>\<open>strcmp\<close>, and the insertion
  has no defined result.
\<close>

theorem add_compares_stored_null_key:
  "(case hashtable_new (2 ^ 31 :: 32 word) True True of
      NULL \<Rightarrow> False
    | Ptr t0 \<Rightarrow>
        (case hashtable_add (2 ^ 31) t0 NULL x calloc_ok True of
           Some (True, t1) \<Rightarrow>
             hashtable_hash_string (Ptr ''ae'') (key_len t1) (hash_seed t1) = Some (5860800 :: 32 word) \<and>
             hashtable_add (2 ^ 31) t1 (Ptr ''ae'') v1 calloc_ok' malloc_ok' = None
         | _ \<Rightarrow> False))"
  by (simp add: ht_defs Let_def word_le_nat_alt)

lemma concat_replicate_update:
  "i < n \<Longrightarrow> concat ((replicate n [])[i := c]) = c"
proof (induction n arbitrary: i)
  case 0
  then show ?case by simp
next
  case (Suc n)
  then show ?case by (cases i) simp_all
qed

text \<open>
  C8. In the same table the key \<^verbatim>\<open>"ae"\<close> is not present; \<^verbatim>\<open>hashtable_remove(table, "ae")\<close>
  calls \<^verbatim>\<open>key_cmp(key, e->key)\<close> with the stored \<^verbatim>\<open>NULL\<close> key and has no defined
  result.
\<close>

theorem remove_compares_stored_null_key:
  "(case hashtable_new (2 ^ 31 :: 32 word) True True of
      NULL \<Rightarrow> False
    | Ptr t0 \<Rightarrow>
        (case hashtable_add (2 ^ 31) t0 NULL x calloc_ok True of
           Some (True, t1) \<Rightarrow>
             Ptr ''ae'' \<notin> key ` set (table_entries t1) \<and>
             hashtable_remove t1 (Ptr ''ae'') = None
         | _ \<Rightarrow> False))"
  by (simp add: ht_defs Let_def table_entries_def concat_replicate_update del: set_concat)

text \<open>
  C2. The table made by \<^verbatim>\<open>hashtable_new\<close> has the capacity 16, the load factor 0.75
  and the threshold 12. Twelve mappings with distinct keys are to be inserted, every
  allocation succeeding; the first key is the \<^verbatim>\<open>NULL\<close> key and the second is \<^verbatim>\<open>"ae"\<close>.
  After the first insertion the capacity is 16 and the size 1. The second insertion
  compares \<^verbatim>\<open>"ae"\<close> with the stored \<^verbatim>\<open>NULL\<close> key of chain 0 and has no defined result,
  so the twelve insertions have none, and no thirteenth follows them.
\<close>

theorem growth_fails_with_null_key:
  "(case hashtable_new (2 ^ 31 :: 32 word) True True of
      NULL \<Rightarrow> False
    | Ptr t0 \<Rightarrow>
        (let kvs = [(NULL, Ptr 0), (Ptr ''ae'', Ptr 1), (Ptr ''a'', Ptr 2), (Ptr ''b'', Ptr 3),
                    (Ptr ''c'', Ptr 4), (Ptr ''d'', Ptr 5), (Ptr ''e'', Ptr 6), (Ptr ''f'', Ptr 7),
                    (Ptr ''g'', Ptr 8), (Ptr ''h'', Ptr 9), (Ptr ''i'', Ptr 10),
                    (Ptr ''j'', Ptr (11 :: nat))]
         in capacity t0 = 16 \<and> threshold t0 = 12 \<and> length kvs = 12 \<and>
            distinct (map fst kvs) \<and>
            (case insert_all (2 ^ 31) t0 (take 1 kvs) of
               None \<Rightarrow> False
             | Some t1 \<Rightarrow>
                 capacity t1 = 16 \<and> size_ht t1 = 1 \<and>
                 hashtable_add (2 ^ 31) t1 (Ptr ''ae'') (Ptr 1) True True = None) \<and>
            insert_all (2 ^ 31) t0 kvs = None))"
  by (simp add: ht_defs Let_def word_le_nat_alt)

section \<open>Where the strategies accept the keys\<close>

lemma add_entry_no_memory:
  assumes inv: "table_inv KS t" and k: "k \<in> KS"
    and absent: "k \<notin> key ` set (table_entries t)"
  shows "add_entry t k v False = Some (False, t)"
proof -
  from inv obtain bs where bs: "buckets t = Ptr bs" and cap: "capacity t \<noteq> 0"
    and len: "length bs = unat (capacity t)"
    and inKS: "\<And>e. e \<in> set (concat bs) \<Longrightarrow> key e \<in> KS"
    and ok: "keys_ok (hash_fn t) (key_cmp t) (key_len t) (hash_seed t) KS"
    by (rule table_invE) blast
  have entries: "table_entries t = concat bs" by (simp add: table_entries_def bs)
  show ?thesis
  proof (cases "k = NULL")
    case True
    from cap len have 0: "0 < length bs" by (simp add: unat_gt_0)
    from absent True 0 have "NULL \<notin> key ` set (bs ! 0)"
      using nth_subset_concat [of 0 bs] by (auto simp: entries simp del: set_concat)
    then have "null_key_replace v (bs ! 0) = None" by (rule null_key_replace_absent)
    with True 0 show ?thesis
      by (simp add: add_entry_def add_null_key_def deref_def array_read_def bs)
  next
    case False
    with ok k obtain h where h: "hash_fn t k (key_len t) (hash_seed t) = Some h"
      by (blast dest: keys_ok_hash)
    let ?i = "unat (h AND (capacity t - 1))"
    from cap len have i: "?i < length bs" by (rule mask_index_less')
    have "\<forall>e\<in>set (bs ! ?i). key_cmp t (key e) k = Some False"
    proof
      fix e assume "e \<in> set (bs ! ?i)"
      with i have e: "e \<in> set (concat bs)" using nth_subset_concat [of ?i bs] by blast
      then have "key e \<in> KS" by (rule inKS)
      with ok k False have "key_cmp t (key e) k = Some (key e = k)"
        by (blast dest: keys_ok_cmp)
      moreover from e absent have "key e \<noteq> k" by (auto simp: entries simp del: set_concat)
      ultimately show "key_cmp t (key e) k = Some False" by simp
    qed
    then have "key_replace (key_cmp t) k v (bs ! ?i) = Some None"
      by (rule key_replace_absent)
    with False h i show ?thesis
      by (simp add: add_entry_def deref_def array_read_def bs Let_def)
  qed
qed

lemma unat_push_bit_1_le:
  fixes c :: "'w::len word"
  shows "unat (push_bit 1 c) \<le> 2 * unat c"
proof -
  have "push_bit 1 c = c + c" by (simp add: push_bit_eq_mult)
  then have "unat (push_bit 1 c) = (unat c + unat c) mod 2 ^ LENGTH('w)"
    by (simp only: unat_word_ariths(1))
  also have "\<dots> \<le> unat c + unat c" by (rule mod_less_eq_dividend)
  finally show ?thesis by simp
qed

text \<open>
  The step at the head of \<^verbatim>\<open>hashtable_add\<close>: with \<open>MAX_POW_TWO = 2 ^ m\<close> and a capacity
  \<open>2 ^ j\<close>, \<open>j \<le> m\<close>, that is \<open>MAX_POW_TWO\<close> or fits the loop counter of \<^verbatim>\<open>move_entries\<close>,
  it returns a table with the same entries, whose capacity is the old one or twice
  the old one, and the invariant and the bound on the capacity still hold.
\<close>

lemma grow_step:
  fixes M :: "'w::len word"
  assumes inv: "table_inv KS t" and M: "M = 2 ^ m" "m < LENGTH('w)"
    and cap: "\<exists>j\<le>m. capacity t = 2 ^ j"
    and fits: "capacity t = M \<or> unat (capacity t) \<le> INT_MAX"
  shows "\<exists>t1. (if threshold t \<le> size_ht t
               then map_option snd (resize M t (push_bit 1 (capacity t)) calloc_ok)
               else Some t) = Some t1 \<and>
              table_inv KS t1 \<and> (\<exists>j\<le>m. capacity t1 = 2 ^ j) \<and>
              (capacity t1 = capacity t \<or> capacity t1 = push_bit 1 (capacity t)) \<and>
              mset (table_entries t1) = mset (table_entries t) \<and> size_ht t1 = size_ht t"
proof (cases "threshold t \<le> size_ht t \<and> capacity t \<noteq> M \<and> calloc_ok")
  case False
  then have "(if threshold t \<le> size_ht t
               then map_option snd (resize M t (push_bit 1 (capacity t)) calloc_ok)
               else Some t) = Some t"
    by (auto simp: resize_refused)
  with inv cap show ?thesis by simp
next
  case True
  from cap obtain j where j: "j \<le> m" "capacity t = 2 ^ j" by blast
  with True M have "j \<noteq> m" by auto
  with j have sj: "Suc j \<le> m" by simp
  have nc: "push_bit 1 (capacity t) = 2 ^ Suc j" by (simp add: j push_bit_eq_mult)
  from sj M(2) have "Suc j < LENGTH('w)" by simp
  then have "(2 ^ Suc j :: 'w word) \<noteq> 0" by (simp only: exp_eq_zero_iff not_le)
  with nc have "push_bit 1 (capacity t) \<noteq> 0" by simp
  moreover from True have "capacity t \<noteq> M" "calloc_ok" by simp_all
  moreover from fits True have "unat (capacity t) \<le> INT_MAX" by simp
  ultimately obtain t' where "resize M t (push_bit 1 (capacity t)) calloc_ok = Some (True, t')"
    "table_inv KS t'" "mset (table_entries t') = mset (table_entries t)"
    "size_ht t' = size_ht t" "capacity t' = push_bit 1 (capacity t)"
    using resize_grows [OF inv, of "push_bit 1 (capacity t)" M calloc_ok] by blast
  with True sj nc show ?thesis by (intro exI [of _ t']) auto
qed

lemma hashtable_add_unfold:
  "(if threshold t \<le> size_ht t
    then map_option snd (resize M t (push_bit 1 (capacity t)) calloc_ok)
    else Some t) = Some t1 \<Longrightarrow>
   hashtable_add M t k v calloc_ok malloc_ok = add_entry t1 k v malloc_ok"
  by (simp add: hashtable_add_def)

lemma key_present_mset:
  "mset es' = mset es \<Longrightarrow> k \<in> key ` set es' \<longleftrightarrow> k \<in> key ` set es"
proof -
  assume "mset es' = mset es"
  then have "set es' = set es" by (rule mset_eq_setD)
  then show ?thesis by simp
qed

text \<open>
  The property of C1 for a table that satisfies the invariant and a key on which the
  strategies are defined: when \<^verbatim>\<open>hashtable_add(k, v1)\<close> has returned true, a second
  \<^verbatim>\<open>hashtable_add(k, v2)\<close> returns true, leaves \<open>size\<close> as it is, and the lookup of \<open>k\<close>
  returns \<open>v2\<close>. Each of the two calls may resize, so twice the capacity is to fit the
  loop counter of \<^verbatim>\<open>move_entries\<close>.
\<close>

lemma insert_twice:
  fixes M :: "'w::len word"
  assumes inv: "table_inv KS t" and k: "k \<in> KS" and M: "M = 2 ^ m" "m < LENGTH('w)"
    and cap: "\<exists>j\<le>m. capacity t = 2 ^ j"
    and fits: "2 * unat (capacity t) \<le> INT_MAX"
    and first: "hashtable_add M t k v1 calloc_ok malloc_ok = Some (True, t1)"
  shows "\<exists>t2. hashtable_add M t1 k v2 calloc_ok' malloc_ok' = Some (True, t2) \<and>
              size_ht t2 = size_ht t1 \<and> hashtable_get t2 k = Some v2"
proof -
  \<comment> \<open>the first insertion\<close>
  from fits have "capacity t = M \<or> unat (capacity t) \<le> INT_MAX" by simp
  from grow_step [OF inv M cap this, of calloc_ok] obtain ta where
    ta: "(if threshold t \<le> size_ht t
          then map_option snd (resize M t (push_bit 1 (capacity t)) calloc_ok)
          else Some t) = Some ta"
    and inva: "table_inv KS ta" and capa: "\<exists>j\<le>m. capacity ta = 2 ^ j"
    and stepa: "capacity ta = capacity t \<or> capacity ta = push_bit 1 (capacity t)"
    by blast
  have "unat (push_bit 1 (capacity t)) \<le> 2 * unat (capacity t)"
    by (rule unat_push_bit_1_le)
  with stepa fits have fitsa: "unat (capacity ta) \<le> INT_MAX" by auto
  from first ta have adda: "add_entry ta k v1 malloc_ok = Some (True, t1)"
    by (simp add: hashtable_add_unfold)
  have "table_inv KS t1 \<and> capacity t1 = capacity ta \<and> k \<in> key ` set (table_entries t1)"
  proof (cases "k \<in> key ` set (table_entries ta)")
    case True
    then obtain e where e: "e \<in> set (table_entries ta)" "key e = k" by auto
    from add_entry_replace [OF inva k e, of v1 malloc_ok] adda
    have "table_inv KS t1" "capacity t1 = capacity ta"
      and ms: "mset (table_entries t1) + {#e#} = mset (table_entries ta) + {#e\<lparr>val := v1\<rparr>#}"
      by auto
    from ms have "e\<lparr>val := v1\<rparr> \<in># mset (table_entries t1) + {#e#}" by simp
    then have "e\<lparr>val := v1\<rparr> \<in> set (table_entries t1) \<or> e\<lparr>val := v1\<rparr> = e" by auto
    then have "k \<in> key ` set (table_entries t1)"
    proof
      assume "e\<lparr>val := v1\<rparr> \<in> set (table_entries t1)"
      then have "key (e\<lparr>val := v1\<rparr>) \<in> key ` set (table_entries t1)" by (rule imageI)
      with e(2) show ?thesis by simp
    next
      assume same: "e\<lparr>val := v1\<rparr> = e"
      with ms have "mset (table_entries t1) = mset (table_entries ta)" by simp
      from key_present_mset [OF this, of k] True show ?thesis by blast
    qed
    with \<open>table_inv KS t1\<close> \<open>capacity t1 = capacity ta\<close> show ?thesis by simp
  next
    case False
    have "malloc_ok"
    proof (rule ccontr)
      assume "\<not> malloc_ok"
      with add_entry_no_memory [OF inva k False, of v1] adda show False by simp
    qed
    with add_entry_new [OF inva k False, of v1] adda obtain e where
      "table_inv KS t1" "capacity t1 = capacity ta" "key e = k"
      "mset (table_entries t1) = add_mset e (mset (table_entries ta))"
      by auto
    moreover from this have "e \<in> set (table_entries t1)"
      by (metis mset_eq_setD set_mset_mset union_single_eq_member)
    ultimately show ?thesis by auto
  qed
  then have inv1: "table_inv KS t1" and cap1: "\<exists>j\<le>m. capacity t1 = 2 ^ j"
    and pres1: "k \<in> key ` set (table_entries t1)"
    and fits1: "capacity t1 = M \<or> unat (capacity t1) \<le> INT_MAX"
    using capa fitsa by simp_all
  \<comment> \<open>the second insertion\<close>
  from grow_step [OF inv1 M cap1 fits1, of calloc_ok'] obtain tb where
    tb: "(if threshold t1 \<le> size_ht t1
          then map_option snd (resize M t1 (push_bit 1 (capacity t1)) calloc_ok')
          else Some t1) = Some tb"
    and invb: "table_inv KS tb"
    and msb: "mset (table_entries tb) = mset (table_entries t1)"
    and szb: "size_ht tb = size_ht t1"
    by blast
  from key_present_mset [OF msb, of k] pres1 have "k \<in> key ` set (table_entries tb)" by blast
  then obtain e where e: "e \<in> set (table_entries tb)" "key e = k" by auto
  from add_entry_replace [OF invb k e, of v2 malloc_ok'] obtain t2 where
    add2: "add_entry tb k v2 malloc_ok' = Some (True, t2)" and inv2: "table_inv KS t2"
    and sz2: "size_ht t2 = size_ht tb"
    and ms2: "mset (table_entries t2) + {#e#} = mset (table_entries tb) + {#e\<lparr>val := v2\<rparr>#}"
    by blast
  have "e\<lparr>val := v2\<rparr> \<in> set (table_entries t2)"
  proof -
    from ms2 have "e\<lparr>val := v2\<rparr> \<in># mset (table_entries t2) + {#e#}" by simp
    then have "e\<lparr>val := v2\<rparr> \<in> set (table_entries t2) \<or> e\<lparr>val := v2\<rparr> = e" by auto
    then show ?thesis
    proof
      assume same: "e\<lparr>val := v2\<rparr> = e"
      with ms2 have "mset (table_entries t2) = mset (table_entries tb)" by simp
      then have "set (table_entries t2) = set (table_entries tb)" by (rule mset_eq_setD)
      with e(1) same show ?thesis by simp
    qed
  qed
  then have "(k, v2) \<in> mappings t2"
    using e(2) by (auto simp: mappings_def image_iff intro!: bexI [of _ "e\<lparr>val := v2\<rparr>"])
  with inv2 have "hashtable_get t2 k = Some v2" by (rule get_of_mapping)
  moreover from tb add2 have "hashtable_add M t1 k v2 calloc_ok' malloc_ok' = Some (True, t2)"
    by (simp add: hashtable_add_unfold)
  ultimately show ?thesis using sz2 szb by simp
qed

text \<open>
  The property of C8 under the same conditions: removing a key that is not present
  returns \<^verbatim>\<open>NULL\<close> and the table as it was.
\<close>

lemma remove_absent:
  assumes inv: "table_inv KS t" and k: "k \<in> KS"
    and absent: "k \<notin> key ` set (table_entries t)"
  shows "hashtable_remove t k = Some (NULL, t)"
proof -
  from inv obtain bs where bs: "buckets t = Ptr bs" and cap: "capacity t \<noteq> 0"
    and len: "length bs = unat (capacity t)"
    and inKS: "\<And>e. e \<in> set (concat bs) \<Longrightarrow> key e \<in> KS"
    and ok: "keys_ok (hash_fn t) (key_cmp t) (key_len t) (hash_seed t) KS"
    by (rule table_invE) blast
  have entries: "table_entries t = concat bs" by (simp add: table_entries_def bs)
  show ?thesis
  proof (cases "k = NULL")
    case True
    from cap len have 0: "0 < length bs" by (simp add: unat_gt_0)
    from absent True 0 have "NULL \<notin> key ` set (bs ! 0)"
      using nth_subset_concat [of 0 bs] by (auto simp: entries simp del: set_concat)
    then have "null_key_unlink (bs ! 0) = None" by (rule null_key_unlink_absent)
    with True 0 show ?thesis
      by (simp add: hashtable_remove_def remove_null_key_def deref_def array_read_def bs)
  next
    case False
    with ok k obtain h where h: "hash_fn t k (key_len t) (hash_seed t) = Some h"
      by (blast dest: keys_ok_hash)
    let ?i = "unat (h AND (capacity t - 1))"
    from cap len have i: "?i < length bs" by (rule mask_index_less')
    have "\<forall>e\<in>set (bs ! ?i). key_cmp t k (key e) = Some False"
    proof
      fix e assume "e \<in> set (bs ! ?i)"
      with i have e: "e \<in> set (concat bs)" using nth_subset_concat [of ?i bs] by blast
      then have "key e \<in> KS" by (rule inKS)
      with ok k False have "key_cmp t k (key e) = Some (k = key e)"
        by (blast dest: keys_ok_cmp)
      moreover from e absent have "k \<noteq> key e" by (auto simp: entries simp del: set_concat)
      ultimately show "key_cmp t k (key e) = Some False" by simp
    qed
    then have "key_unlink (key_cmp t) k (bs ! ?i) = Some None"
      by (rule key_unlink_absent)
    with False h i show ?thesis
      by (simp add: hashtable_remove_def get_table_index_def deref_def array_read_def bs)
  qed
qed

section \<open>What the string hash computes\<close>

lemma hash_string_seed_independent:
  "hashtable_hash_string k len seed = hashtable_hash_string k len' seed'"
  by (simp add: hashtable_hash_string_def)

lemma hash_string_loop_fold:
  "CHR 0x00 \<notin> set s \<Longrightarrow> c \<noteq> CHR 0x00 \<Longrightarrow>
   hash_string_loop h (c # s @ [CHR 0x00]) =
     Some (foldl (\<lambda>h d. (push_bit 5 h + h) XOR char_to_size_t d) h (s @ [CHR 0x00]))"
proof (induction s arbitrary: h c)
  case Nil
  then have "of_char c \<noteq> (0 :: nat)" by (simp add: of_char_eq_0_iff)
  then show ?case by simp
next
  case (Cons d s)
  from Cons.prems have c: "of_char c \<noteq> (0 :: nat)" by (simp add: of_char_eq_0_iff)
  from Cons.prems have "CHR 0x00 \<notin> set s" "d \<noteq> CHR 0x00" by auto
  then have "hash_string_loop ((push_bit 5 h + h) XOR char_to_size_t d) (d # s @ [CHR 0x00]) =
      Some (foldl (\<lambda>h d. (push_bit 5 h + h) XOR char_to_size_t d)
              ((push_bit 5 h + h) XOR char_to_size_t d) (s @ [CHR 0x00]))"
    by (rule Cons.IH)
  with c show ?case by simp
qed

text \<open>
  For a key of one character or more, without a zero in it: the first character is
  left out and the terminating zero is mixed in.
\<close>

lemma hash_string_actual:
  "CHR 0x00 \<notin> set (c # s) \<Longrightarrow>
   hashtable_hash_string (Ptr (c # s)) len seed =
     Some (foldl (\<lambda>h d. (push_bit 5 h + h) XOR char_to_size_t d) 5381 (s @ [CHR 0x00]))"
  using hash_string_loop_fold [of s c 5381] by (auto simp: hashtable_hash_string_def)

end
